theory Spec2Isabelle
  imports Main
begin

section \<open>The product collector of \<^verbatim>\<open>src/index.ts\<close>\<close>

text \<open>
  The program fetches paged search results for each query given on the command line,
  renders every item as one comma-separated line and rewrites \<^verbatim>\<open>data.csv\<close> with the
  text it held followed by the new lines. This theory embeds its functions and proves
  properties of them.

  JavaScript strings are modelled as \<open>string\<close>: a text is the list of the bytes of its
  UTF-8 encoding, which are the bytes that \<^verbatim>\<open>Bun.write\<close> puts into a file for it. The
  \<^verbatim>\<open>async\<close> functions run sequentially (every promise is awaited at once), so they are
  ordinary functions here; the 100 ms delay and the messages that \<^verbatim>\<open>fetchProducts\<close>
  prints (progress, and the error it has caught) have no effect on control flow or results
  and are left out.
\<close>

subsection \<open>Pagination: \<^verbatim>\<open>fetchProducts\<close>\<close>

definition TARGET_PRODUCTS_PER_QUERY :: nat where
  "TARGET_PRODUCTS_PER_QUERY = 500"

text \<open>
  Two things that the results depend on are fixed by the engine that runs the program, not
  by its source; they are parameters of the functions below.

  A call takes only so many arguments. \<^verbatim>\<open>push(...items)\<close> passes every item as an
  argument of its own; when there are more than a call takes, it throws a \<^verbatim>\<open>RangeError\<close>
  and nothing has been appended. Engines take some hundred thousand arguments. All that is
  taken for granted here is that a call takes 500 of them, the most that line 142 ever
  passes; \<open>spare_arguments\<close> is how many more it takes, and \<open>spreads eng items\<close> says that
  \<open>items\<close> can be spread into one call.

  \<^verbatim>\<open>file.text()\<close> reads the bytes of a file as UTF-8. What text it makes of bytes that
  are not well-formed UTF-8 (it puts U+FFFD where it cannot decode) is left to the engine:
  \<open>lossy_text\<close> is that text.
\<close>

record engine =
  spare_arguments :: nat
  lossy_text :: "string \<Rightarrow> string"

definition spreads :: "engine \<Rightarrow> 'a list \<Rightarrow> bool" where
  "spreads eng items \<longleftrightarrow> length items \<le> TARGET_PRODUCTS_PER_QUERY + spare_arguments eng"

text \<open>Exceptions that the \<^verbatim>\<open>try\<close> block of the loop can raise.\<close>

datatype js_error =
    NetworkError        \<comment> \<open>\<^verbatim>\<open>fetch\<close> rejects\<close>
  | HttpError nat       \<comment> \<open>the \<^verbatim>\<open>throw new Error\<close> of the source, with the status\<close>
  | SyntaxError         \<comment> \<open>\<^verbatim>\<open>response.json()\<close> rejects\<close>
  | TypeError           \<comment> \<open>a property read on \<^verbatim>\<open>null\<close> or \<^verbatim>\<open>undefined\<close>\<close>
  | RangeError          \<comment> \<open>a spread of more arguments than a call takes\<close>

text \<open>
  The value of \<^verbatim>\<open>pagination.nextPage\<close>: the source compares it with \<^verbatim>\<open>null\<close> by
  \<^verbatim>\<open>!==\<close>, so a property that is not there (\<^verbatim>\<open>undefined\<close>) counts as a next page.
\<close>

datatype next_page = Null | Undefined | Token string

text \<open>
  What \<^verbatim>\<open>response.json()\<close> gives: a rejection (\<open>Malformed\<close>, the body is not JSON), the
  value \<^verbatim>\<open>null\<close> (\<open>NullBody\<close>, on which reading \<^verbatim>\<open>results\<close> throws), or a value with
  properties. In \<open>Data r p\<close>, \<open>r\<close> is the \<^verbatim>\<open>results\<close> array (\<open>None\<close> when the field is
  absent, \<^verbatim>\<open>null\<close> or another falsy value), and \<open>p\<close> is \<^verbatim>\<open>pagination.nextPage\<close> (\<open>None\<close>
  when \<^verbatim>\<open>pagination\<close> itself is absent or \<^verbatim>\<open>null\<close>, so that reading \<^verbatim>\<open>nextPage\<close> from it
  throws). A \<^verbatim>\<open>results\<close> that is present is taken to be an array, as the interface
  \<^verbatim>\<open>SearchResponse\<close> declares it.
\<close>

datatype 'a body =
    Malformed
  | NullBody
  | Data "'a list option" "next_page option"

text \<open>The outcome of one \<^verbatim>\<open>fetch(url)\<close>: a rejection, or a response with a status and a body.\<close>

datatype 'a fetch_result = Rejected | Response nat "'a body"

definition ok :: "nat \<Rightarrow> bool" where
  "ok status \<longleftrightarrow> 200 \<le> status \<and> status \<le> 299"

text \<open>
  The variables of the loop. \<open>requests\<close> is not in the source: it records every call of
  \<^verbatim>\<open>fetch\<close>, as the page asked for and the number of items held at that moment.
\<close>

record 'a loop_state =
  allProducts :: "'a list"
  page :: nat
  hasMore :: bool
  requests :: "(nat \<times> nat) list"

text \<open>
  The \<^verbatim>\<open>try\<close> block (lines 92 to 115). It returns the state as the block left it and the
  exception it raised, if any. The push of line 104 throws, and appends nothing, when the
  page has more items than a call takes; otherwise it has happened when line 108 throws.
  \<^verbatim>\<open>encodeURIComponent\<close> throws only on a string with a lone surrogate, which a string of
  bytes does not have, so building the URL is not a branch here.
\<close>

definition try_block ::
  "engine \<Rightarrow> (nat \<Rightarrow> 'a fetch_result) \<Rightarrow> 'a loop_state \<Rightarrow> 'a loop_state \<times> js_error option" where
  "try_block eng fetch st =
     (let st1 = st\<lparr>requests := requests st @ [(page st, length (allProducts st))]\<rparr> in
      case fetch (page st) of
        Rejected \<Rightarrow> (st1, Some NetworkError)
      | Response status b \<Rightarrow>
          if \<not> ok status then (st1, Some (HttpError status))
          else (case b of
            Malformed \<Rightarrow> (st1, Some SyntaxError)
          | NullBody \<Rightarrow> (st1, Some TypeError)
          | Data r p \<Rightarrow>
              (case r of
                None \<Rightarrow> (st1\<lparr>hasMore := False\<rparr>, None)
              | Some xs \<Rightarrow>
                  if 0 < length xs then
                    if \<not> spreads eng xs then (st1, Some RangeError)
                    else
                      (let st2 = st1\<lparr>allProducts := allProducts st1 @ xs\<rparr> in
                       case p of
                         None \<Rightarrow> (st2, Some TypeError)
                       | Some np \<Rightarrow> (st2\<lparr>hasMore := (np \<noteq> Null), page := page st2 + 1\<rparr>, None))
                  else (st1\<lparr>hasMore := False\<rparr>, None))))"

text \<open>One iteration: the \<^verbatim>\<open>try\<close> block, then the \<^verbatim>\<open>catch\<close> clause (lines 116 to 119).\<close>

definition iteration :: "engine \<Rightarrow> (nat \<Rightarrow> 'a fetch_result) \<Rightarrow> 'a loop_state \<Rightarrow> 'a loop_state" where
  "iteration eng fetch st =
     (case try_block eng fetch st of
        (st', None) \<Rightarrow> st'
      | (st', Some e) \<Rightarrow> st'\<lparr>hasMore := False\<rparr>)"

function while_loop :: "engine \<Rightarrow> (nat \<Rightarrow> 'a fetch_result) \<Rightarrow> 'a loop_state \<Rightarrow> 'a loop_state" where
  "while_loop eng fetch st =
     (if hasMore st \<and> length (allProducts st) < TARGET_PRODUCTS_PER_QUERY
      then while_loop eng fetch (iteration eng fetch st)
      else st)"
  by pat_completeness auto
termination
proof (relation "measure (\<lambda>(eng, fetch, st). (if hasMore st then 1 else 0)
        + 2 * (TARGET_PRODUCTS_PER_QUERY - length (allProducts st)))")
  fix eng :: engine and fetch :: "nat \<Rightarrow> 'a fetch_result" and st :: "'a loop_state"
  assume "hasMore st \<and> length (allProducts st) < TARGET_PRODUCTS_PER_QUERY"
  then have "(if hasMore (iteration eng fetch st) then 1 else 0)
        + 2 * (TARGET_PRODUCTS_PER_QUERY - length (allProducts (iteration eng fetch st)))
      < (if hasMore st then 1 else (0::nat))
        + 2 * (TARGET_PRODUCTS_PER_QUERY - length (allProducts st))"
    by (auto simp: iteration_def try_block_def Let_def intro!: diff_less_mono2
        split: fetch_result.splits body.splits option.splits)
  then show "((eng, fetch, iteration eng fetch st), (eng, fetch, st))
      \<in> measure (\<lambda>(eng, fetch, st). (if hasMore st then 1 else 0)
        + 2 * (TARGET_PRODUCTS_PER_QUERY - length (allProducts st)))"
    by simp
qed simp

definition initial :: "'a loop_state" where
  "initial = \<lparr>allProducts = [], page = 1, hasMore = True, requests = []\<rparr>"

definition fetchProducts_run ::
  "engine \<Rightarrow> (string \<Rightarrow> nat \<Rightarrow> 'a fetch_result) \<Rightarrow> string \<Rightarrow> 'a loop_state" where
  "fetchProducts_run eng transport query = while_loop eng (transport query) initial"

definition fetchProducts ::
  "engine \<Rightarrow> (string \<Rightarrow> nat \<Rightarrow> 'a fetch_result) \<Rightarrow> string \<Rightarrow> 'a list" where
  "fetchProducts eng transport query =
     take TARGET_PRODUCTS_PER_QUERY (allProducts (fetchProducts_run eng transport query))"

subsection \<open>Numbers\<close>

text \<open>
  A JavaScript number is an IEEE 754 binary64 value. The numbers of this program
  (\<^verbatim>\<open>price\<close>, \<^verbatim>\<open>starRating\<close>, \<^verbatim>\<open>totalRatings\<close>) are modelled as \<open>int\<close>: the theory covers
  the numbers whose value is an integer, so a rating such as 4.5 is outside it, and an
  integer stands for a number only when it is a binary64 value (\<open>double_of_int n = n\<close>,
  which holds for every \<open>n\<close> up to \<open>2 ^ 53\<close>). The quotients that \<^verbatim>\<open>formatRatings\<close> computes
  are not integers: such a value is a pair \<open>(m, e)\<close> standing for \<open>m * 2 ^ e\<close>.
\<close>

text \<open>The decimal digits of a natural number.\<close>

definition digit_char :: "nat \<Rightarrow> char" where
  "digit_char d = ''0123456789'' ! d"

fun digits :: "nat \<Rightarrow> string" where
  "digits n = (if n < 10 then [digit_char n] else digits (n div 10) @ [digit_char (n mod 10)])"

text \<open>
  The division of two positive integers that are doubles, rounded to the nearest double,
  to the even one of two nearest (the quotients of this program are far from the largest
  and the smallest double). \<open>ilog2 n\<close> is the position of the highest bit of \<open>n\<close>, and
  \<open>quotient_exponent a b\<close> the exponent \<open>E\<close> with \<open>2 ^ E \<le> a / b < 2 ^ (E + 1)\<close>, found
  from the highest bits and one comparison. The quotient is then scaled by \<open>2 ^ (52 - E)\<close>
  to a number from \<open>2 ^ 52\<close> to \<open>2 ^ 53\<close>, and \<open>round_half_even num den\<close> rounds
  \<open>num / den\<close> to an integer, the significand \<open>m\<close> of the result \<open>m * 2 ^ (E - 52)\<close>.
\<close>

fun ilog2 :: "nat \<Rightarrow> nat" where
  "ilog2 n = (if n < 2 then 0 else Suc (ilog2 (n div 2)))"

definition round_half_even :: "int \<Rightarrow> int \<Rightarrow> int" where
  "round_half_even num den =
     (let q = num div den; r = num mod den in
      if 2 * r < den then q
      else if den < 2 * r then q + 1
      else if even q then q else q + 1)"

definition quotient_exponent :: "int \<Rightarrow> int \<Rightarrow> int" where
  "quotient_exponent a b =
     (let k = int (ilog2 (nat a)) - int (ilog2 (nat b)) in
      if (if 0 \<le> k then b * 2 ^ nat k \<le> a else b \<le> a * 2 ^ nat (- k)) then k else k - 1)"

definition double_div :: "int \<Rightarrow> int \<Rightarrow> int \<times> int" where
  "double_div a b =
     (let E = quotient_exponent a b;
          s = 52 - E;
          m = (if 0 \<le> s then round_half_even (a * 2 ^ nat s) b
               else round_half_even a (b * 2 ^ nat (- s)))
      in (m, - s))"

text \<open>
  The double nearest to an integer, itself an integer: what \<^verbatim>\<open>JSON.parse\<close> makes of an
  integer literal.
\<close>

definition double_of_int :: "int \<Rightarrow> int" where
  "double_of_int y =
     (case double_div y 1 of (m, e) \<Rightarrow>
        if 0 \<le> e then m * 2 ^ nat e else m div 2 ^ nat (- e))"

text \<open>
  \<^verbatim>\<open>Number.prototype.toString\<close> on a number whose value is an integer (ECMAScript,
  Number::toString): with \<open>n\<close>, \<open>k\<close> and \<open>s\<close> such that \<open>s\<close> has \<open>k\<close> digits, the double
  nearest to \<open>s * 10 ^ (n - k)\<close> is the number, and \<open>k\<close> is as small as possible, the text
  is the digits of \<open>s\<close> followed by \<open>n - k\<close> zeros when \<open>n \<le> 21\<close>, and exponent notation
  otherwise. For a positive integer \<open>x\<close> of \<open>d\<close> digits, \<open>shortest\<close> tries \<open>k = 1, 2, \<dots>, d\<close>;
  for each \<open>k\<close> the values of \<open>s\<close> to try are the first \<open>k\<close> digits of \<open>x\<close>, that number plus
  one, and \<open>10 ^ (k - 1)\<close> with one digit more before the point (\<open>candidates\<close>); among
  those that give \<open>x\<close> back (\<open>represents\<close>) the one nearest to \<open>x\<close> is taken, the even one of
  two (\<open>closer\<close>). With \<open>k = d\<close> and \<open>s = x\<close> the search would end at the latest; the
  last equation of \<open>shortest\<close> says so.
\<close>

definition candidates :: "int \<Rightarrow> nat \<Rightarrow> nat \<Rightarrow> (nat \<times> int) list" where
  "candidates x d k =
     (let s = x div 10 ^ (d - k) in [(d, s), (d, s + 1), (d + 1, 10 ^ (k - 1))])"

definition represents :: "int \<Rightarrow> nat \<Rightarrow> nat \<times> int \<Rightarrow> bool" where
  "represents x k c =
     (case c of (n, s) \<Rightarrow>
        10 ^ (k - 1) \<le> s \<and> s < 10 ^ k \<and> double_of_int (s * 10 ^ (n - k)) = x)"

definition closer :: "int \<Rightarrow> nat \<Rightarrow> nat \<times> int \<Rightarrow> nat \<times> int \<Rightarrow> nat \<times> int" where
  "closer x k c c' =
     (case (c, c') of ((n, s), (n', s')) \<Rightarrow>
        let dist = \<bar>s * 10 ^ (n - k) - x\<bar>; dist' = \<bar>s' * 10 ^ (n' - k) - x\<bar> in
        if dist' < dist \<or> (dist' = dist \<and> even s' \<and> odd s) then c' else c)"

fun shortest :: "int \<Rightarrow> nat \<Rightarrow> nat \<Rightarrow> nat \<Rightarrow> nat \<times> nat \<times> int" where
  "shortest x d k 0 = (d, d, x)"
| "shortest x d k (Suc fuel) =
     (case filter (represents x k) (candidates x d k) of
        [] \<Rightarrow> shortest x d (k + 1) fuel
      | c # cs \<Rightarrow> (case foldl (closer x k) c cs of (n, s) \<Rightarrow> (n, k, s)))"

definition positive_toString :: "int \<Rightarrow> string" where
  "positive_toString x =
     (let d = length (digits (nat x)) in
      case shortest x d 1 d of (n, k, s) \<Rightarrow>
        if n \<le> 21 then digits (nat s) @ replicate (n - k) (CHR ''0'')
        else if k = 1 then digits (nat s) @ ''e+'' @ digits (n - 1)
        else take 1 (digits (nat s)) @ ''.'' @ drop 1 (digits (nat s)) @ ''e+'' @ digits (n - 1))"

definition number_toString :: "int \<Rightarrow> string" where
  "number_toString x =
     (if x = 0 then ''0''
      else if x < 0 then ''-'' @ positive_toString (- x)
      else positive_toString x)"

text \<open>
  \<^verbatim>\<open>toFixed(1)\<close> on a positive double \<open>m * 2 ^ e\<close> (ECMAScript, Number.prototype.toFixed):
  for a number of at least \<open>10 ^ 21\<close>, which is an integer, the text of the number;
  otherwise the integer \<open>n\<close> for which \<open>n / 10\<close> is nearest to the number, the larger one of
  two, written with a point before its last digit.
\<close>

definition at_least_1e21 :: "int \<times> int \<Rightarrow> bool" where
  "at_least_1e21 x = (case x of (m, e) \<Rightarrow>
     if 0 \<le> e then 10 ^ 21 \<le> m * 2 ^ nat e else 10 ^ 21 * 2 ^ nat (- e) \<le> m)"

definition toFixed1 :: "int \<times> int \<Rightarrow> string" where
  "toFixed1 x =
     (case x of (m, e) \<Rightarrow>
        if at_least_1e21 x
        then number_toString (if 0 \<le> e then m * 2 ^ nat e else m div 2 ^ nat (- e))
        else
          (let n = (if 0 \<le> e then 10 * m * 2 ^ nat e
                    else (20 * m + 2 ^ nat (- e)) div 2 ^ (nat (- e) + 1))
           in digits (nat (n div 10)) @ ''.'' @ digits (nat (n mod 10))))"

subsection \<open>Formatting: \<^verbatim>\<open>formatPrice\<close>, \<^verbatim>\<open>formatRatings\<close>, \<^verbatim>\<open>escapeCsvField\<close>, \<^verbatim>\<open>productToCsvRow\<close>\<close>

text \<open>
  The prefix that the template of \<^verbatim>\<open>formatPrice\<close> writes before the amount: the seven
  bytes that stand there in the source file.
\<close>

definition currency_prefix :: string where
  "currency_prefix = [CHR 0xC3, CHR 0xA2, CHR 0xE2, CHR 0x80, CHR 0x9A, CHR 0xC2, CHR 0xB9]"

fun pairs :: "'a list \<Rightarrow> 'a list list" where
  "pairs [] = []"
| "pairs [x] = [[x]]"
| "pairs (x # y # zs) = [x, y] # pairs zs"

text \<open>
  \<^verbatim>\<open>toLocaleString("en-IN")\<close> on a number whose value is an integer: its digits, grouped
  from the right in a group of three and then groups of two, with a minus sign before a
  negative number. The digits are the shortest ones that give the number back, followed by
  zeros (\<open>integer_digits\<close>, with the search of \<^verbatim>\<open>toString\<close> above). The number \<^verbatim>\<open>-0\<close>,
  which is written with its sign, is not among the integers.
\<close>

definition integer_digits :: "int \<Rightarrow> string" where
  "integer_digits x =
     (let d = length (digits (nat x)) in
      case shortest x d 1 d of (n, k, s) \<Rightarrow> digits (nat s) @ replicate (n - k) (CHR ''0''))"

definition indian_grouping :: "string \<Rightarrow> string" where
  "indian_grouping ds =
     (let r = rev ds in
      rev (take 3 r @ concat (map (\<lambda>g. CHR '','' # g) (pairs (drop 3 r)))))"

definition toLocaleString_en_IN :: "int \<Rightarrow> string" where
  "toLocaleString_en_IN n =
     (if n = 0 then ''0''
      else if n < 0 then ''-'' @ indian_grouping (integer_digits (- n))
      else indian_grouping (integer_digits n))"

definition formatPrice :: "int \<Rightarrow> string" where
  "formatPrice price = currency_prefix @ toLocaleString_en_IN price"

text \<open>\<^verbatim>\<open>formatRatings\<close>, lines 47 to 60.\<close>

definition formatRatings :: "int \<Rightarrow> string" where
  "formatRatings totalRatings =
     (if totalRatings = - 1 then ''Number 1 Top-Rated''
      else if totalRatings < 1000 then ''('' @ number_toString totalRatings @ '')''
      else if totalRatings < 1000000 then
        (let k = toFixed1 (double_div totalRatings 1000) in ''('' @ k @ ''K)'')
      else
        (let m = toFixed1 (double_div totalRatings 1000000) in ''('' @ m @ ''M)''))"

text \<open>\<^verbatim>\<open>escapeCsvField\<close>, lines 63 to 68.\<close>

definition quote_char :: char where
  "quote_char = CHR 0x22"

definition newline :: char where
  "newline = CHR 0x0A"

definition escapeCsvField :: "string \<Rightarrow> string" where
  "escapeCsvField field =
     (if CHR '','' \<in> set field \<or> quote_char \<in> set field \<or> newline \<in> set field
      then [quote_char]
        @ concat (map (\<lambda>c. if c = quote_char then [quote_char, quote_char] else [c]) field)
        @ [quote_char]
      else field)"

record item_image =
  original :: string
  small :: string
  medium :: string
  large :: string

text \<open>
  The interface \<^verbatim>\<open>SearchItem\<close>; its fields \<^verbatim>\<open>id\<close> and \<^verbatim>\<open>image\<close> are \<open>item_id\<close> and
  \<open>item_image\<close> here.
\<close>

record SearchItem =
  item_id :: string
  productUrl :: string
  title :: string
  item_image :: item_image
  currency :: string
  price :: int
  originalPrice :: int
  starRating :: int
  totalRatings :: int
  apiUrl :: string

text \<open>\<^verbatim>\<open>productToCsvRow\<close>, lines 71 to 81.\<close>

definition productToCsvRow :: "SearchItem \<Rightarrow> string" where
  "productToCsvRow product =
     (let title' = escapeCsvField (title product);
          price' = formatPrice (price product);
          rating = number_toString (starRating product);
          ratings = formatRatings (totalRatings product);
          url = productUrl product;
          image = small (item_image product);
          source = ''Amazon''
      in title' @ '','' @ price' @ '','' @ rating @ '','' @ ratings @ '','' @ url
         @ '','' @ image @ '','' @ source)"

subsection \<open>The program: \<^verbatim>\<open>main\<close> and the top-level call\<close>

text \<open>
  The file \<^verbatim>\<open>data.csv\<close> as the run finds it: its bytes (\<open>None\<close> when there is no such
  file), whether reading it fails, and whether writing it fails.
\<close>

record file_system =
  data_csv :: "string option"
  read_fails :: bool
  write_fails :: bool

datatype io_error = WriteError

text \<open>What the run does to the world, in order.\<close>

datatype event =
    Log string              \<comment> \<open>\<^verbatim>\<open>console.log\<close>\<close>
  | LogError io_error       \<comment> \<open>\<^verbatim>\<open>console.error\<close>\<close>
  | Fetch string nat        \<comment> \<open>\<^verbatim>\<open>fetch\<close> of a page of a query\<close>
  | FileExists              \<comment> \<open>\<^verbatim>\<open>file.exists()\<close>\<close>
  | FileText                \<comment> \<open>\<^verbatim>\<open>file.text()\<close>\<close>
  | FileWrite string        \<comment> \<open>\<^verbatim>\<open>Bun.write\<close>\<close>
  | ProcessExit nat         \<comment> \<open>\<^verbatim>\<open>process.exit\<close>\<close>

text \<open>How the promise of \<^verbatim>\<open>main\<close> ends, unless the process exits inside it.\<close>

datatype completion = Fulfilled | Rejects io_error | Exited nat

fun join :: "string \<Rightarrow> string list \<Rightarrow> string" where
  "join sep [] = []"
| "join sep [r] = r"
| "join sep (r # rs) = r @ sep @ join sep rs"

text \<open>
  The \<^verbatim>\<open>for\<close> loop of lines 140 to 143: the calls of \<^verbatim>\<open>fetch\<close> it makes, and the items.
  The push of line 142 spreads what \<^verbatim>\<open>fetchProducts\<close> returned, at most 500 items, which
  a call takes.
\<close>

definition fetches ::
  "engine \<Rightarrow> (string \<Rightarrow> nat \<Rightarrow> 'a fetch_result) \<Rightarrow> string list \<Rightarrow> event list" where
  "fetches eng transport queries =
     concat (map (\<lambda>query. map (\<lambda>(p, n). Fetch query p)
       (requests (fetchProducts_run eng transport query))) queries)"

definition collect ::
  "engine \<Rightarrow> (string \<Rightarrow> nat \<Rightarrow> 'a fetch_result) \<Rightarrow> string list \<Rightarrow> 'a list" where
  "collect eng transport queries = concat (map (fetchProducts eng transport) queries)"

text \<open>
  Well-formed UTF-8 (the Unicode Standard, table 3-7), on the values of the bytes: a byte
  below \<^verbatim>\<open>80\<close>; a byte from \<^verbatim>\<open>C2\<close> to \<^verbatim>\<open>DF\<close> and one continuation byte (\<^verbatim>\<open>80\<close> to
  \<^verbatim>\<open>BF\<close>); a byte from \<^verbatim>\<open>E0\<close> to \<^verbatim>\<open>EF\<close> and two continuation bytes, the first from
  \<^verbatim>\<open>A0\<close> after \<^verbatim>\<open>E0\<close> and up to \<^verbatim>\<open>9F\<close> after \<^verbatim>\<open>ED\<close>; a byte from \<^verbatim>\<open>F0\<close> to \<^verbatim>\<open>F4\<close> and
  three continuation bytes, the first from \<^verbatim>\<open>90\<close> after \<^verbatim>\<open>F0\<close> and up to \<^verbatim>\<open>8F\<close> after
  \<^verbatim>\<open>F4\<close>.
\<close>

definition continuation :: "nat \<Rightarrow> bool" where
  "continuation b \<longleftrightarrow> 0x80 \<le> b \<and> b \<le> 0xBF"

fun well_formed :: "nat list \<Rightarrow> bool" where
  "well_formed [] = True"
| "well_formed (b # bs) =
     (if b < 0x80 then well_formed bs
      else if 0xC2 \<le> b \<and> b \<le> 0xDF then
        (case bs of
           c # cs \<Rightarrow> continuation c \<and> well_formed cs
         | _ \<Rightarrow> False)
      else if 0xE0 \<le> b \<and> b \<le> 0xEF then
        (case bs of
           c # d # ds \<Rightarrow>
             (if b = 0xE0 then 0xA0 \<le> c \<and> c \<le> 0xBF
              else if b = 0xED then 0x80 \<le> c \<and> c \<le> 0x9F
              else continuation c)
             \<and> continuation d \<and> well_formed ds
         | _ \<Rightarrow> False)
      else if 0xF0 \<le> b \<and> b \<le> 0xF4 then
        (case bs of
           c # d # e # es \<Rightarrow>
             (if b = 0xF0 then 0x90 \<le> c \<and> c \<le> 0xBF
              else if b = 0xF4 then 0x80 \<le> c \<and> c \<le> 0x8F
              else continuation c)
             \<and> continuation d \<and> continuation e \<and> well_formed es
         | _ \<Rightarrow> False)
      else False)"

definition utf8 :: "string \<Rightarrow> bool" where
  "utf8 bytes \<longleftrightarrow> well_formed (map of_char bytes)"

text \<open>
  \<^verbatim>\<open>file.text()\<close>, on the bytes of the file: the text that these bytes encode, without the
  byte order mark when they begin with one; for bytes that are not well-formed UTF-8, what
  the engine makes of them.
\<close>

definition byte_order_mark :: string where
  "byte_order_mark = [CHR 0xEF, CHR 0xBB, CHR 0xBF]"

definition file_text :: "engine \<Rightarrow> string \<Rightarrow> string" where
  "file_text eng bytes =
     (if utf8 bytes
      then (if take 3 bytes = byte_order_mark then drop 3 bytes else bytes)
      else lossy_text eng bytes)"

text \<open>
  Lines 151 to 164: the text of the old file, with a newline added when it is not empty
  and does not end with one. A failed read is caught and gives the empty string.
\<close>

definition read_existing :: "engine \<Rightarrow> file_system \<Rightarrow> event list \<times> string" where
  "read_existing eng fs =
     (case data_csv fs of
        None \<Rightarrow> ([FileExists], [])
      | Some bytes \<Rightarrow>
          if read_fails fs then ([FileExists, FileText], [])
          else (let existingContent = file_text eng bytes in
                ([FileExists, FileText],
                 if existingContent \<noteq> [] \<and> last existingContent \<noteq> newline
                 then existingContent @ [newline] else existingContent)))"

text \<open>
  \<^verbatim>\<open>main\<close>, lines 127 to 170, on the queries \<^verbatim>\<open>process.argv.slice(2)\<close>: the events, the
  file system afterwards, and how the call ends. A write that fails leaves the file system
  as it was.
\<close>

definition main ::
  "engine \<Rightarrow> (string \<Rightarrow> nat \<Rightarrow> SearchItem fetch_result) \<Rightarrow> file_system \<Rightarrow> string list
    \<Rightarrow> event list \<times> file_system \<times> completion" where
  "main eng transport fs queries =
     (if length queries = 0 then
        ([Log ''Usage: bun index.ts <query1> <query2> ...'',
          Log ''Example: bun index.ts samsung iphone oneplus'',
          ProcessExit 1], fs, Exited 1)
      else
        (let products = collect eng transport queries;
             count = number_toString (int (length products));
             csvRows = map productToCsvRow products;
             csvContent = join [newline] csvRows;
             (reads, existingContent) = read_existing eng fs;
             finalContent = existingContent @ csvContent;
             before = fetches eng transport queries
               @ [Log ([newline] @ ''Writing '' @ count @ '' products to data.csv...'')]
               @ reads @ [FileWrite finalContent]
         in if write_fails fs then (before, fs, Rejects WriteError)
            else (before @ [Log (''Successfully appended '' @ count @ '' products to data.csv'')],
                  fs\<lparr>data_csv := Some finalContent\<rparr>, Fulfilled)))"

text \<open>
  Line 172, \<^verbatim>\<open>main().catch(console.error)\<close>: the events, the file system and the exit
  status of the process. A rejection of \<^verbatim>\<open>main\<close> is caught and printed, and the process
  then ends as after a run without error.
\<close>

definition program ::
  "engine \<Rightarrow> (string \<Rightarrow> nat \<Rightarrow> SearchItem fetch_result) \<Rightarrow> file_system \<Rightarrow> string list
    \<Rightarrow> event list \<times> file_system \<times> nat" where
  "program eng transport fs queries =
     (case main eng transport fs queries of
        (evs, fs', Exited status) \<Rightarrow> (evs, fs', status)
      | (evs, fs', Fulfilled) \<Rightarrow> (evs, fs', 0)
      | (evs, fs', Rejects e) \<Rightarrow> (evs @ [LogError e], fs', 0))"

subsection \<open>The one-decimal form\<close>

text \<open>
  The text of a number of tenths \<open>t\<close> with one decimal: 25 tenths are \<^verbatim>\<open>2.5\<close>. The property
  of \<^verbatim>\<open>formatRatings\<close> is stated with it.
\<close>

definition one_decimal :: "nat \<Rightarrow> string" where
  "one_decimal t = digits (t div 10) @ ''.'' @ digits (t mod 10)"

subsection \<open>Words for the behaviour of the API\<close>

text \<open>
  These say what a response is like, to state the properties of the loop. A response
  \<open>fails\<close> when the \<^verbatim>\<open>try\<close> block throws before it has pushed anything: the transport
  rejects, the status is not a success, the body is not JSON, or the body is \<^verbatim>\<open>null\<close>.
  It \<open>continues\<close> when it brings items and a \<^verbatim>\<open>nextPage\<close> that is not \<^verbatim>\<open>null\<close>. It has
  \<open>no_pagination\<close> when it brings items and no \<^verbatim>\<open>pagination\<close> to read \<^verbatim>\<open>nextPage\<close> from.
  \<open>pages_before fetch k\<close> is the items of the pages 1 to \<open>k - 1\<close>, in order.
\<close>

definition fails :: "'a fetch_result \<Rightarrow> bool" where
  "fails r = (case r of
      Rejected \<Rightarrow> True
    | Response status b \<Rightarrow> \<not> ok status \<or> (case b of Malformed \<Rightarrow> True | NullBody \<Rightarrow> True | Data r p \<Rightarrow> False))"

definition page_items :: "'a fetch_result \<Rightarrow> 'a list" where
  "page_items r = (case r of Response status (Data (Some xs) p) \<Rightarrow> xs | _ \<Rightarrow> [])"

definition continues :: "'a fetch_result \<Rightarrow> bool" where
  "continues r = (case r of
      Response status (Data (Some xs) (Some np)) \<Rightarrow> ok status \<and> xs \<noteq> [] \<and> np \<noteq> Null
    | _ \<Rightarrow> False)"

definition pages_before :: "(nat \<Rightarrow> 'a fetch_result) \<Rightarrow> nat \<Rightarrow> 'a list" where
  "pages_before fetch k = concat (map (\<lambda>p. page_items (fetch p)) [1..<k])"

definition no_pagination :: "'a fetch_result \<Rightarrow> bool" where
  "no_pagination r = (case r of
      Response status (Data (Some xs) None) \<Rightarrow> ok status \<and> xs \<noteq> []
    | _ \<Rightarrow> False)"

subsection \<open>Example inputs\<close>

text \<open>
  An engine whose calls take 600000 arguments. Its \<open>lossy_text\<close> puts one U+FFFD for any
  bytes that are not well-formed UTF-8; no file of the examples has such bytes.
\<close>

definition example_engine :: engine where
  "example_engine = \<lparr>spare_arguments = 599500,
     lossy_text = (\<lambda>bytes. [CHR 0xEF, CHR 0xBF, CHR 0xBD])\<rparr>"

subsection \<open>Example behaviours of the API\<close>

text \<open>
  Inputs at which the theorems below are tried: an API that always has 200 items more; one
  whose third page cannot be fetched; one whose only page has 501 items and no
  \<^verbatim>\<open>pagination\<close>; one whose only page has 700000 items and no \<^verbatim>\<open>pagination\<close>; one that
  always has 700000 items more; one whose second page has no \<^verbatim>\<open>pagination\<close>. The items
  are numbers, since the loop never looks into them.
\<close>

definition endless_pages :: "string \<Rightarrow> nat \<Rightarrow> nat fetch_result" where
  "endless_pages query p = Response 200 (Data (Some (replicate 200 p)) (Some (Token ''next'')))"

definition failing_third_page :: "string \<Rightarrow> nat \<Rightarrow> nat fetch_result" where
  "failing_third_page query p =
     (if p = 1 then Response 200 (Data (Some [10, 11]) (Some (Token ''2'')))
      else if p = 2 then Response 200 (Data (Some [12]) (Some Undefined))
      else Rejected)"

definition unpaginated_page :: "string \<Rightarrow> nat \<Rightarrow> nat fetch_result" where
  "unpaginated_page query p = Response 200 (Data (Some [0..<501]) None)"

definition oversized_page :: "string \<Rightarrow> nat \<Rightarrow> nat fetch_result" where
  "oversized_page query p = Response 200 (Data (Some (replicate 700000 p)) None)"

definition oversized_pages :: "string \<Rightarrow> nat \<Rightarrow> nat fetch_result" where
  "oversized_pages query p =
     Response 200 (Data (Some (replicate 700000 p)) (Some (Token ''next'')))"

definition unpaginated_second_page :: "string \<Rightarrow> nat \<Rightarrow> nat fetch_result" where
  "unpaginated_second_page query p =
     (if p = 1 then Response 200 (Data (Some [10, 11]) (Some (Token ''2'')))
      else Response 200 (Data (Some [12, 13]) None))"

subsection \<open>Example inputs of the program\<close>

text \<open>
  An item whose title is the one of the specification's escaping example and whose price
  has four digits; an API with that item on its only page, and one that cannot be reached;
  a disk where \<^verbatim>\<open>data.csv\<close> cannot be written, one where it exists and cannot be read,
  one where it holds a line without a newline at its end, and one where it holds a line
  after a byte order mark.
\<close>

definition example_item :: SearchItem where
  "example_item = \<lparr>item_id = ''B0TV'',
     productUrl = ''https://example.com/p/1'',
     title = ''He said '' @ [quote_char] @ ''hi'' @ [quote_char] @ '', ok'',
     item_image = \<lparr>original = ''https://example.com/i/1.jpg'', small = ''https://example.com/i/1s.jpg'',
       medium = ''https://example.com/i/1m.jpg'', large = ''https://example.com/i/1l.jpg''\<rparr>,
     currency = ''INR'', price = 1299, originalPrice = 1999, starRating = 4,
     totalRatings = 2500, apiUrl = ''https://example.com/api/1''\<rparr>"

definition one_item_page :: "string \<Rightarrow> nat \<Rightarrow> SearchItem fetch_result" where
  "one_item_page query p = Response 200 (Data (Some [example_item]) (Some Null))"

definition unreachable_api :: "string \<Rightarrow> nat \<Rightarrow> SearchItem fetch_result" where
  "unreachable_api query p = Rejected"

definition no_file_unwritable :: file_system where
  "no_file_unwritable = \<lparr>data_csv = None, read_fails = False, write_fails = True\<rparr>"

definition unreadable_file :: file_system where
  "unreadable_file = \<lparr>data_csv = Some ''old row'', read_fails = True, write_fails = False\<rparr>"

definition file_without_newline :: file_system where
  "file_without_newline = \<lparr>data_csv = Some ''old row'', read_fails = False, write_fails = False\<rparr>"

definition file_with_mark :: file_system where
  "file_with_mark = \<lparr>data_csv = Some (byte_order_mark @ ''old row'' @ [newline]),
     read_fails = False, write_fails = False\<rparr>"

subsection \<open>Reading a line back\<close>

text \<open>
  The fields of a line as a reader of comma-separated values sees them: the line is cut at
  every comma that is not between double quotes. It is not part of the program; the
  property of the rows is stated with it.
\<close>

fun split_fields :: "bool \<Rightarrow> string \<Rightarrow> string \<Rightarrow> string list" where
  "split_fields quoted field [] = [field]"
| "split_fields quoted field (c # cs) =
     (if c = quote_char then split_fields (\<not> quoted) (field @ [c]) cs
      else if c = CHR '','' \<and> \<not> quoted then field # split_fields False [] cs
      else split_fields quoted (field @ [c]) cs)"

definition csv_fields :: "string \<Rightarrow> string list" where
  "csv_fields line = split_fields False [] line"

section \<open>Properties\<close>

subsection \<open>The loop, step by step\<close>

declare while_loop.simps [simp del]

lemma spreads_up_to_cap: "length items \<le> TARGET_PRODUCTS_PER_QUERY \<Longrightarrow> spreads eng items"
  by (simp add: spreads_def)

lemma iteration_continues:
  assumes "continues (fetch (page st))" and "spreads eng (page_items (fetch (page st)))"
  shows "iteration eng fetch st = st\<lparr>allProducts := allProducts st @ page_items (fetch (page st)),
      page := page st + 1, hasMore := True,
      requests := requests st @ [(page st, length (allProducts st))]\<rparr>"
  using assms
  by (auto simp: iteration_def try_block_def continues_def page_items_def Let_def
      split: fetch_result.splits body.splits option.splits)

lemma iteration_fails:
  assumes "fails (fetch (page st))"
  shows "iteration eng fetch st = st\<lparr>hasMore := False,
      requests := requests st @ [(page st, length (allProducts st))]\<rparr>"
  using assms
  by (auto simp: iteration_def try_block_def fails_def Let_def
      split: fetch_result.splits body.splits option.splits)

lemma while_loop_stop:
  "\<not> (hasMore st \<and> length (allProducts st) < TARGET_PRODUCTS_PER_QUERY) \<Longrightarrow> while_loop eng fetch st = st"
  by (subst while_loop.simps) auto

lemma while_loop_step:
  "hasMore st \<Longrightarrow> length (allProducts st) < TARGET_PRODUCTS_PER_QUERY \<Longrightarrow>
   while_loop eng fetch st = while_loop eng fetch (iteration eng fetch st)"
  by (subst while_loop.simps) simp

lemma while_loop_funpow:
  assumes "\<forall>i<n. hasMore ((iteration eng fetch ^^ i) st)
      \<and> length (allProducts ((iteration eng fetch ^^ i) st)) < TARGET_PRODUCTS_PER_QUERY"
  shows "while_loop eng fetch st = while_loop eng fetch ((iteration eng fetch ^^ n) st)"
  using assms
proof (induction n)
  case 0
  then show ?case by simp
next
  case (Suc n)
  have "while_loop eng fetch st = while_loop eng fetch ((iteration eng fetch ^^ n) st)"
    using Suc by simp
  also have "\<dots> = while_loop eng fetch (iteration eng fetch ((iteration eng fetch ^^ n) st))"
    using Suc.prems by (intro while_loop_step) simp_all
  finally show ?case by simp
qed

lemma funpow_continues:
  assumes "\<forall>p. page st \<le> p \<and> p < page st + n
      \<longrightarrow> continues (fetch p) \<and> spreads eng (page_items (fetch p))"
  shows "allProducts ((iteration eng fetch ^^ n) st)
           = allProducts st @ concat (map (\<lambda>p. page_items (fetch p)) [page st..<page st + n])
       \<and> page ((iteration eng fetch ^^ n) st) = page st + n
       \<and> hasMore ((iteration eng fetch ^^ n) st) = (if n = 0 then hasMore st else True)
       \<and> requests ((iteration eng fetch ^^ n) st)
           = requests st @ map (\<lambda>p. (p, length (allProducts st
               @ concat (map (\<lambda>p. page_items (fetch p)) [page st..<p])))) [page st..<page st + n]"
  using assms
proof (induction n)
  case 0
  then show ?case by simp
next
  case (Suc n)
  let ?s = "(iteration eng fetch ^^ n) st"
  have ih: "allProducts ?s = allProducts st @ concat (map (\<lambda>p. page_items (fetch p)) [page st..<page st + n])"
    "page ?s = page st + n"
    "requests ?s = requests st @ map (\<lambda>p. (p, length (allProducts st
               @ concat (map (\<lambda>p. page_items (fetch p)) [page st..<p])))) [page st..<page st + n]"
    using Suc by simp_all
  have "continues (fetch (page ?s))" and "spreads eng (page_items (fetch (page ?s)))"
    using Suc.prems ih(2) by simp_all
  from iteration_continues [where fetch = fetch and st = ?s and eng = eng, OF this]
  have it: "iteration eng fetch ?s = ?s\<lparr>allProducts := allProducts ?s @ page_items (fetch (page ?s)),
      page := page ?s + 1, hasMore := True,
      requests := requests ?s @ [(page ?s, length (allProducts ?s))]\<rparr>" .
  have S: "(iteration eng fetch ^^ Suc n) st = iteration eng fetch ?s" by simp
  have up: "[page st..<page st + Suc n] = [page st..<page st + n] @ [page st + n]" by simp
  have a: "allProducts (iteration eng fetch ?s) = allProducts ?s @ page_items (fetch (page ?s))"
    by (subst it) simp
  have b: "page (iteration eng fetch ?s) = page ?s + 1" by (subst it) simp
  have c: "hasMore (iteration eng fetch ?s) = True" by (subst it) simp
  have d: "requests (iteration eng fetch ?s) = requests ?s @ [(page ?s, length (allProducts ?s))]"
    by (subst it) simp
  show ?case
    unfolding S a b c d up ih by simp
qed

lemma pages_before_Suc:
  "1 \<le> k \<Longrightarrow> pages_before fetch (Suc k) = pages_before fetch k @ page_items (fetch k)"
  by (simp add: pages_before_def)

lemma pages_before_mono:
  "i \<le> j \<Longrightarrow> length (pages_before fetch i) \<le> length (pages_before fetch j)"
proof (induction j)
  case 0
  then show ?case by simp
next
  case (Suc j)
  show ?case
  proof (cases "i = Suc j")
    case True
    then show ?thesis by simp
  next
    case False
    with Suc have le: "length (pages_before fetch i) \<le> length (pages_before fetch j)" by simp
    show ?thesis
    proof (cases "1 \<le> j")
      case True
      then show ?thesis using le by (simp add: pages_before_Suc)
    next
      case False
      then show ?thesis using le by (simp add: pages_before_def)
    qed
  qed
qed

lemma funpow_initial:
  assumes "\<forall>p\<in>{1..n}. continues (fetch p) \<and> spreads eng (page_items (fetch p))"
  shows "(iteration eng fetch ^^ n) initial
    = \<lparr>allProducts = pages_before fetch (Suc n), page = Suc n, hasMore = True,
       requests = map (\<lambda>p. (p, length (pages_before fetch p))) [1..<Suc n]\<rparr>"
proof -
  have c: "\<forall>p. page initial \<le> p \<and> p < page initial + n
      \<longrightarrow> continues (fetch p) \<and> spreads eng (page_items (fetch p))"
    using assms by (simp add: initial_def)
  note f = funpow_continues [where st = initial and n = n and fetch = fetch and eng = eng, OF c]
  show ?thesis
    by (rule loop_state.equality)
       (simp_all add: f, simp_all add: initial_def pages_before_def)
qed

lemma while_loop_completed:
  assumes "\<forall>p\<in>{1..n}. continues (fetch p) \<and> spreads eng (page_items (fetch p))"
    and "n = 0 \<or> length (pages_before fetch n) < TARGET_PRODUCTS_PER_QUERY"
  shows "while_loop eng fetch initial = while_loop eng fetch
     \<lparr>allProducts = pages_before fetch (Suc n), page = Suc n, hasMore = True,
      requests = map (\<lambda>p. (p, length (pages_before fetch p))) [1..<Suc n]\<rparr>"
proof -
  have "\<forall>i<n. hasMore ((iteration eng fetch ^^ i) initial)
      \<and> length (allProducts ((iteration eng fetch ^^ i) initial)) < TARGET_PRODUCTS_PER_QUERY"
  proof (intro allI impI)
    fix i assume i: "i < n"
    then have "\<forall>p\<in>{1..i}. continues (fetch p) \<and> spreads eng (page_items (fetch p))"
      using assms(1) by simp
    from funpow_initial [where n = i and fetch = fetch and eng = eng, OF this]
    have st: "(iteration eng fetch ^^ i) initial
      = \<lparr>allProducts = pages_before fetch (Suc i), page = Suc i, hasMore = True,
         requests = map (\<lambda>p. (p, length (pages_before fetch p))) [1..<Suc i]\<rparr>" .
    have "length (pages_before fetch (Suc i)) \<le> length (pages_before fetch n)"
      using i by (intro pages_before_mono) simp
    moreover have "length (pages_before fetch n) < TARGET_PRODUCTS_PER_QUERY"
      using assms(2) i by auto
    ultimately show "hasMore ((iteration eng fetch ^^ i) initial)
      \<and> length (allProducts ((iteration eng fetch ^^ i) initial)) < TARGET_PRODUCTS_PER_QUERY"
      by (simp add: st)
  qed
  from while_loop_funpow [where n = n and eng = eng and fetch = fetch and st = initial, OF this]
  show ?thesis
    by (simp only: funpow_initial [where n = n and fetch = fetch and eng = eng, OF assms(1)])
qed

lemma iteration_requests:
  "requests (iteration eng fetch st) = requests st @ [(page st, length (allProducts st))]"
  by (auto simp: iteration_def try_block_def Let_def
      split: fetch_result.splits body.splits option.splits)

lemma while_loop_requests_below_cap:
  "\<forall>r\<in>set (requests st). snd r < TARGET_PRODUCTS_PER_QUERY \<Longrightarrow>
   \<forall>r\<in>set (requests (while_loop eng fetch st)). snd r < TARGET_PRODUCTS_PER_QUERY"
proof (induction eng fetch st rule: while_loop.induct)
  case (1 eng fetch st)
  show ?case
  proof (cases "hasMore st \<and> length (allProducts st) < TARGET_PRODUCTS_PER_QUERY")
    case True
    then have "\<forall>r\<in>set (requests (iteration eng fetch st)). snd r < TARGET_PRODUCTS_PER_QUERY"
      using "1.prems" by (simp add: iteration_requests)
    from "1.IH" [OF True this] show ?thesis
      using True by (subst while_loop.simps) simp
  next
    case False
    then show ?thesis using "1.prems" by (subst while_loop.simps) auto
  qed
qed

lemma iteration_no_pagination:
  assumes "no_pagination (fetch (page st))" and "spreads eng (page_items (fetch (page st)))"
  shows "iteration eng fetch st = st\<lparr>allProducts := allProducts st @ page_items (fetch (page st)),
      hasMore := False,
      requests := requests st @ [(page st, length (allProducts st))]\<rparr>"
  using assms
  by (auto simp: iteration_def try_block_def no_pagination_def page_items_def Let_def
      split: fetch_result.splits body.splits option.splits)

lemma run_reaches_page:
  assumes "1 \<le> k"
    and "\<forall>p\<in>{1..<k}. continues (transport query p)"
    and "length (pages_before (transport query) k) < 500"
  shows "fetchProducts_run eng transport query
    = while_loop eng (transport query) (iteration eng (transport query)
        \<lparr>allProducts = pages_before (transport query) k, page = k, hasMore = True,
         requests = map (\<lambda>p. (p, length (pages_before (transport query) p))) [1..<k]\<rparr>)"
proof -
  let ?f = "transport query"
  obtain n where k: "k = Suc n" using assms(1) by (cases k) auto
  let ?st = "\<lparr>allProducts = pages_before ?f (Suc n), page = Suc n, hasMore = True,
      requests = map (\<lambda>p. (p, length (pages_before ?f p))) [1..<Suc n]\<rparr>"
  have c: "\<forall>p\<in>{1..n}. continues (?f p) \<and> spreads eng (page_items (?f p))"
  proof
    fix p assume p: "p \<in> {1..n}"
    then have "length (page_items (?f p)) \<le> length (pages_before ?f (Suc p))"
      by (simp add: pages_before_Suc)
    also have "\<dots> \<le> length (pages_before ?f k)"
      using p k by (intro pages_before_mono) simp
    finally have "spreads eng (page_items (?f p))"
      using assms(3) by (intro spreads_up_to_cap) (simp add: TARGET_PRODUCTS_PER_QUERY_def)
    then show "continues (?f p) \<and> spreads eng (page_items (?f p))"
      using assms(2) p k by auto
  qed
  have "length (pages_before ?f n) \<le> length (pages_before ?f k)"
    using k by (intro pages_before_mono) simp
  then have b: "n = 0 \<or> length (pages_before ?f n) < TARGET_PRODUCTS_PER_QUERY"
    using assms(3) by (simp add: TARGET_PRODUCTS_PER_QUERY_def)
  have len: "length (allProducts ?st) < TARGET_PRODUCTS_PER_QUERY"
    using assms(3) k by (simp add: TARGET_PRODUCTS_PER_QUERY_def)
  have "while_loop eng ?f initial = while_loop eng ?f ?st"
    by (rule while_loop_completed [where n = n and fetch = ?f and eng = eng, OF c b])
  also have "\<dots> = while_loop eng ?f (iteration eng ?f ?st)"
    using len by (intro while_loop_step) simp_all
  finally show ?thesis
    unfolding k by (simp only: fetchProducts_run_def)
qed

lemma continues_items: "continues r \<Longrightarrow> page_items r \<noteq> []"
  by (auto simp: continues_def page_items_def split: fetch_result.splits body.splits option.splits)

lemma pages_before_grows:
  assumes "\<forall>p. continues (fetch p)"
  shows "n \<le> length (pages_before fetch (Suc n))"
proof (induction n)
  case 0
  then show ?case by simp
next
  case (Suc n)
  have "page_items (fetch (Suc n)) \<noteq> []" using assms continues_items by blast
  then have "1 \<le> length (page_items (fetch (Suc n)))"
    by (cases "page_items (fetch (Suc n))") simp_all
  moreover have "pages_before fetch (Suc (Suc n))
      = pages_before fetch (Suc n) @ page_items (fetch (Suc n))"
    by (rule pages_before_Suc) simp
  ultimately show ?case using Suc by simp
qed

lemma run_all_continue:
  assumes "\<forall>p. continues (fetch p)" and "\<forall>p. spreads eng (page_items (fetch p))"
  shows "\<exists>k\<ge>1. while_loop eng fetch initial
       = \<lparr>allProducts = pages_before fetch (Suc k), page = Suc k, hasMore = True,
          requests = map (\<lambda>p. (p, length (pages_before fetch p))) [1..<Suc k]\<rparr>
     \<and> length (pages_before fetch k) < TARGET_PRODUCTS_PER_QUERY
     \<and> TARGET_PRODUCTS_PER_QUERY \<le> length (pages_before fetch (Suc k))"
proof -
  let ?P = "\<lambda>k. TARGET_PRODUCTS_PER_QUERY \<le> length (pages_before fetch (Suc k))"
  define k where "k = (LEAST k. ?P k)"
  have ex: "?P TARGET_PRODUCTS_PER_QUERY" using pages_before_grows [OF assms(1)] .
  then have Pk: "?P k" unfolding k_def by (rule LeastI)
  have k1: "1 \<le> k"
  proof (rule ccontr)
    assume "\<not> 1 \<le> k"
    then have "k = 0" by simp
    with Pk show False by (simp add: pages_before_def TARGET_PRODUCTS_PER_QUERY_def)
  qed
  then obtain j where j: "k = Suc j" by (cases k) auto
  have "\<not> ?P j" unfolding k_def j [symmetric, unfolded k_def]
    using not_less_Least [of j ?P] j k_def by simp
  then have below: "length (pages_before fetch k) < TARGET_PRODUCTS_PER_QUERY"
    using j by simp
  let ?st = "\<lparr>allProducts = pages_before fetch (Suc k), page = Suc k, hasMore = True,
          requests = map (\<lambda>p. (p, length (pages_before fetch p))) [1..<Suc k]\<rparr>"
  have "while_loop eng fetch initial = while_loop eng fetch ?st"
    using assms below by (intro while_loop_completed) simp_all
  also have "\<dots> = ?st"
    using Pk by (intro while_loop_stop) simp
  finally show ?thesis using k1 below Pk by blast
qed

lemma endless_pages_run:
  "fetchProducts_run example_engine endless_pages ''tv''
   = \<lparr>allProducts = replicate 200 1 @ replicate 200 2 @ replicate 200 3, page = 4,
      hasMore = True, requests = [(1, 0), (2, 200), (3, 400)]\<rparr>"
  by (simp add: fetchProducts_run_def initial_def while_loop.simps iteration_def try_block_def
      ok_def TARGET_PRODUCTS_PER_QUERY_def endless_pages_def spreads_def example_engine_def)

lemma unpaginated_page_run:
  "fetchProducts_run example_engine unpaginated_page ''tv''
   = \<lparr>allProducts = [0..<501], page = 1, hasMore = False, requests = [(1, 0)]\<rparr>"
  by (simp add: fetchProducts_run_def initial_def while_loop.simps iteration_def try_block_def
      ok_def TARGET_PRODUCTS_PER_QUERY_def unpaginated_page_def spreads_def example_engine_def)

lemma oversized_page_run:
  "fetchProducts_run example_engine oversized_page ''tv''
   = \<lparr>allProducts = [], page = 1, hasMore = False, requests = [(1, 0)]\<rparr>"
  by (simp add: fetchProducts_run_def initial_def while_loop.simps iteration_def try_block_def
      ok_def TARGET_PRODUCTS_PER_QUERY_def oversized_page_def spreads_def example_engine_def)

lemma oversized_pages_run:
  "fetchProducts_run example_engine oversized_pages ''tv''
   = \<lparr>allProducts = [], page = 1, hasMore = False, requests = [(1, 0)]\<rparr>"
  by (simp add: fetchProducts_run_def initial_def while_loop.simps iteration_def try_block_def
      ok_def TARGET_PRODUCTS_PER_QUERY_def oversized_pages_def spreads_def example_engine_def)

subsection \<open>Evaluation and the steps of \<^verbatim>\<open>main\<close>\<close>

declare ilog2.simps [simp del] digits.simps [simp del]

lemmas eval_number =
  number_toString_def positive_toString_def candidates_def represents_def closer_def
  double_of_int_def double_div_def quotient_exponent_def round_half_even_def Let_def
  ilog2.simps digits.simps digit_char_def

lemmas eval_row =
  productToCsvRow_def escapeCsvField_def formatPrice_def toLocaleString_en_IN_def
  integer_digits_def indian_grouping_def formatRatings_def toFixed1_def at_least_1e21_def quote_char_def
  newline_def eval_number

lemma example_row:
  "productToCsvRow example_item
   = [quote_char] @ ''He said '' @ [quote_char, quote_char] @ ''hi'' @ [quote_char, quote_char]
     @ '', ok'' @ [quote_char] @ '','' @ currency_prefix
     @ ''1,299,4,(2.5K),https://example.com/p/1,https://example.com/i/1s.jpg,Amazon''"
  by (simp add: example_item_def eval_row)

lemma one_item_run:
  "fetchProducts_run example_engine one_item_page ''tv''
    = \<lparr>allProducts = [example_item], page = 2, hasMore = False, requests = [(1, 0)]\<rparr>"
  by (simp add: fetchProducts_run_def initial_def while_loop.simps iteration_def try_block_def
      ok_def TARGET_PRODUCTS_PER_QUERY_def one_item_page_def spreads_def example_engine_def)

lemma unreachable_run:
  "fetchProducts_run example_engine unreachable_api ''tv''
    = \<lparr>allProducts = [], page = 1, hasMore = False, requests = [(1, 0)]\<rparr>"
  by (simp add: fetchProducts_run_def initial_def while_loop.simps iteration_def try_block_def
      ok_def TARGET_PRODUCTS_PER_QUERY_def unreachable_api_def spreads_def example_engine_def)

lemma main_rejects:
  "queries \<noteq> [] \<Longrightarrow> write_fails fs \<Longrightarrow>
   \<exists>evs. main eng transport fs queries = (evs, fs, Rejects WriteError)"
  by (simp add: main_def Let_def split: prod.splits)

lemma main_written:
  "queries \<noteq> [] \<Longrightarrow> \<not> write_fails fs \<Longrightarrow>
   fst (snd (main eng transport fs queries))
   = fs\<lparr>data_csv := Some (snd (read_existing eng fs)
        @ join [newline] (map productToCsvRow (collect eng transport queries)))\<rparr>"
  by (simp add: main_def Let_def split: prod.splits)

lemma utf8_after_mark: "utf8 (byte_order_mark @ bytes) = utf8 bytes"
  by (simp add: utf8_def byte_order_mark_def continuation_def)

lemma program_files: "fst (snd (program eng transport fs queries)) = fst (snd (main eng transport fs queries))"
  by (simp add: program_def split: prod.splits completion.splits)

lemma collect_one_item: "collect example_engine one_item_page [''tv''] = [example_item]"
  by (simp add: collect_def fetchProducts_def one_item_run TARGET_PRODUCTS_PER_QUERY_def)

subsection \<open>Rounding a quotient to a double, and to one decimal\<close>

lemma ilog2_bounds: "1 \<le> n \<Longrightarrow> 2 ^ ilog2 n \<le> n \<and> n < 2 ^ Suc (ilog2 n)"
proof (induction n rule: ilog2.induct)
  case (1 n)
  show ?case
  proof (cases "n < 2")
    case True
    with "1.prems" have "n = 1" by simp
    then show ?thesis by (simp add: ilog2.simps)
  next
    case False
    then have "1 \<le> n div 2" by simp
    with "1.IH" False
    have ih: "2 ^ ilog2 (n div 2) \<le> n div 2 \<and> n div 2 < 2 ^ Suc (ilog2 (n div 2))" by simp
    have e: "ilog2 n = Suc (ilog2 (n div 2))" using False by (subst ilog2.simps) simp
    from ih show ?thesis unfolding e by (simp del: ilog2.simps) linarith
  qed
qed

lemma ilog2_less: "1 \<le> n \<Longrightarrow> n < 2 ^ j \<Longrightarrow> ilog2 n < j"
proof -
  assume "1 \<le> n" "n < 2 ^ j"
  with ilog2_bounds [of n] have "(2::nat) ^ ilog2 n < 2 ^ j" by linarith
  then show ?thesis by (rule power_less_imp_less_exp [rotated]) simp
qed

lemma quotient_exponent_le:
  "quotient_exponent a b \<le> int (ilog2 (nat a)) - int (ilog2 (nat b))"
  by (simp add: quotient_exponent_def Let_def)

lemma round_half_even_bounds:
  assumes "0 < den"
  shows "2 * num - den \<le> 2 * (den * round_half_even num den)
       \<and> 2 * (den * round_half_even num den) \<le> 2 * num + den"
proof -
  define q where "q = num div den"
  define r where "r = num mod den"
  have n: "num = den * q + r" by (simp add: q_def r_def)
  have r: "0 \<le> r" "r < den" using assms by (simp_all add: r_def)
  have "round_half_even num den = q \<and> 2 * r \<le> den
      \<or> round_half_even num den = q + 1 \<and> den \<le> 2 * r"
    by (auto simp: round_half_even_def Let_def q_def r_def)
  then show ?thesis
  proof
    assume "round_half_even num den = q \<and> 2 * r \<le> den"
    then show ?thesis using n r by simp
  next
    assume a: "round_half_even num den = q + 1 \<and> den \<le> 2 * r"
    have "den * (q + 1) = den * q + den" by (simp add: algebra_simps)
    then show ?thesis using a n r by simp
  qed
qed

lemma round_half_even_nonneg: "0 < den \<Longrightarrow> 0 \<le> num \<Longrightarrow> 0 \<le> round_half_even num den"
proof -
  assume d: "0 < den" and n: "0 \<le> num"
  then have "0 \<le> num div den" by (simp add: pos_imp_zdiv_nonneg_iff)
  then show ?thesis by (simp add: round_half_even_def Let_def)
qed

lemma toFixed1_form:
  assumes "\<not> at_least_1e21 (m, e)" and "0 \<le> m"
  shows "\<exists>t. toFixed1 (m, e) = one_decimal t"
proof -
  define n where "n = (if 0 \<le> e then 10 * m * 2 ^ nat e
      else (20 * m + 2 ^ nat (- e)) div 2 ^ (nat (- e) + 1))"
  have n0: "0 \<le> n"
    using assms(2) by (auto simp: n_def pos_imp_zdiv_nonneg_iff)
  have "toFixed1 (m, e) = digits (nat (n div 10)) @ ''.'' @ digits (nat (n mod 10))"
    using assms(1) by (simp add: toFixed1_def n_def Let_def)
  also have "\<dots> = one_decimal (nat n)"
    using n0 by (simp add: one_decimal_def nat_div_distrib nat_mod_distrib)
  finally show ?thesis by blast
qed

lemma toFixed1_fraction:
  assumes "0 < s" and "m < 10 ^ 21 * 2 ^ s" and "0 \<le> m"
  shows "toFixed1 (m, - int s) = one_decimal (nat ((20 * m + 2 ^ s) div (2 * 2 ^ s)))"
proof -
  have n0: "0 \<le> (20 * m + 2 ^ s) div (2 * 2 ^ s)"
    using assms(3) by (simp add: pos_imp_zdiv_nonneg_iff)
  have "\<not> at_least_1e21 (m, - int s)"
    using assms(1,2) by (simp add: at_least_1e21_def)
  then have "toFixed1 (m, - int s)
      = digits (nat ((20 * m + 2 ^ s) div (2 * 2 ^ s) div 10)) @ ''.''
        @ digits (nat ((20 * m + 2 ^ s) div (2 * 2 ^ s) mod 10))"
    using assms(1) by (simp add: toFixed1_def Let_def)
  then show ?thesis
    using n0 by (simp add: one_decimal_def nat_div_distrib nat_mod_distrib)
qed

lemma rounded_tenths:
  fixes a b c m P t :: int
  assumes b: "b = 10 * c" and c: "0 < c" "even c" and P: "b < 2 * P"
    and lo: "2 * (a * P) - b \<le> 2 * (b * m)" and hi: "2 * (b * m) \<le> 2 * (a * P) + b"
    and t: "t = (20 * m + P) div (2 * P)"
  shows "\<bar>c * t - a\<bar> \<le> c div 2"
proof -
  have Ppos: "0 < P" using P b c by simp
  define u where "u = P * t"
  define r where "r = (20 * m + P) mod (2 * P)"
  have "20 * m + P = 2 * P * t + r"
    unfolding t r_def by (rule mult_div_mod_eq [symmetric])
  then have x: "20 * m + P = 2 * u + r" by (simp add: u_def)
  have r: "0 \<le> r" "r < 2 * P" using Ppos by (simp_all add: r_def)
  obtain h where h: "c = 2 * h" using c(2) by (elim evenE)
  have hpos: "0 < h" using c(1) h by simp
  have ch: "c div 2 = h" using h by simp
  have "h * (2 * u) \<le> h * (20 * m + P)"
    using x r hpos by (intro mult_left_mono) simp_all
  then have hu: "2 * (h * u) \<le> 20 * (h * m) + h * P"
    by (simp add: algebra_simps)
  have "h * (20 * m - P) < h * (2 * u)"
    using x r hpos by (intro mult_strict_left_mono) simp_all
  then have hu': "20 * (h * m) - h * P < 2 * (h * u)"
    by (simp add: algebra_simps)
  have bm: "b * m = 20 * (h * m)" by (simp add: b h)
  have bh: "b = 20 * h" by (simp add: b h)
  have up: "2 * h * t \<le> a + h"
  proof (rule ccontr)
    assume "\<not> 2 * h * t \<le> a + h"
    then have "a + h + 1 \<le> 2 * h * t" by simp
    then have "P * (a + h + 1) \<le> P * (2 * h * t)"
      using Ppos by (intro mult_left_mono) simp_all
    then have "a * P + h * P + P \<le> 2 * (h * u)"
      by (simp add: u_def algebra_simps)
    with hu hi bm bh P show False by simp
  qed
  have down: "a \<le> 2 * h * t + h"
  proof (rule ccontr)
    assume "\<not> a \<le> 2 * h * t + h"
    then have "2 * h * t + h + 1 \<le> a" by simp
    then have "P * (2 * h * t + h + 1) \<le> P * a"
      using Ppos by (intro mult_left_mono) simp_all
    then have "2 * (h * u) + h * P + P \<le> a * P"
      by (simp add: u_def algebra_simps)
    with hu' lo bm bh P show False by simp
  qed
  show ?thesis using up down h ch by simp
qed

lemma double_div_fraction:
  assumes a: "1 \<le> a" and b: "1 \<le> b"
    and k: "int (ilog2 (nat a)) - int (ilog2 (nat b)) \<le> 52 - int j" and j: "0 < j"
  shows "\<exists>s m. j \<le> s \<and> double_div a b = (m, - int s) \<and> 0 \<le> m
      \<and> 2 * (a * 2 ^ s) - b \<le> 2 * (b * m) \<and> 2 * (b * m) \<le> 2 * (a * 2 ^ s) + b"
proof -
  define E where "E = quotient_exponent a b"
  define s where "s = nat (52 - E)"
  define m where "m = round_half_even (a * 2 ^ s) b"
  have "E \<le> 52 - int j" using quotient_exponent_le [of a b] k by (simp add: E_def)
  then have s: "52 - E = int s" "j \<le> s" by (simp_all add: s_def)
  then have s0: "0 \<le> 52 - E" by simp
  have dd: "double_div a b = (m, - int s)"
    unfolding double_div_def Let_def E_def [symmetric] m_def
    using s0 by (simp add: s_def)
  have m0: "0 \<le> m"
    unfolding m_def using a b by (intro round_half_even_nonneg) simp_all
  from round_half_even_bounds [of b "a * 2 ^ s"] b
  have "2 * (a * 2 ^ s) - b \<le> 2 * (b * m) \<and> 2 * (b * m) \<le> 2 * (a * 2 ^ s) + b"
    by (simp add: m_def)
  with dd m0 s(2) show ?thesis by blast
qed

lemma formatRatings_thousands:
  assumes "1000 \<le> n" and "n < 1000000"
  shows "\<exists>t. formatRatings n = ''('' @ one_decimal t @ ''K)'' \<and> \<bar>100 * int t - n\<bar> \<le> 50"
proof -
  have l: "ilog2 1000 = 9" by (simp add: ilog2.simps)
  have "nat n < 2 ^ 20" using assms by simp
  then have "ilog2 (nat n) < 20" using assms by (intro ilog2_less) simp_all
  then have k: "int (ilog2 (nat n)) - int (ilog2 (nat 1000)) \<le> 52 - int 42"
    by (simp add: l)
  from double_div_fraction [OF _ _ k] assms obtain s m
    where s: "42 \<le> s" and dd: "double_div n 1000 = (m, - int s)" and m0: "0 \<le> m"
      and lo: "2 * (n * 2 ^ s) - 1000 \<le> 2 * (1000 * m)"
      and hi: "2 * (1000 * m) \<le> 2 * (n * 2 ^ s) + 1000"
    by auto
  define P :: int where "P = 2 ^ s"
  have "(2::int) ^ 42 \<le> 2 ^ s" using s by (intro power_increasing) simp_all
  then have P: "4398046511104 \<le> P" by (simp add: P_def)
  have nP: "n * P \<le> 999999 * P" using assms P by (intro mult_right_mono) simp_all
  from lo hi have lo': "2 * (n * P) - 1000 \<le> 2 * (1000 * m)"
    and hi': "2 * (1000 * m) \<le> 2 * (n * P) + 1000"
    by (simp_all add: P_def)
  have "m < 1000000000000000000000 * P" using hi' nP P by linarith
  then have small: "m < 10 ^ 21 * 2 ^ s" by (simp add: P_def)
  define t where "t = (20 * m + P) div (2 * P)"
  have t0: "0 \<le> t" using m0 P by (simp add: t_def pos_imp_zdiv_nonneg_iff)
  have tf: "toFixed1 (m, - int s) = one_decimal (nat t)"
    using toFixed1_fraction [OF _ small m0] s by (simp add: t_def P_def)
  have "\<bar>100 * t - n\<bar> \<le> 100 div 2"
    by (rule rounded_tenths [where b = 1000 and m = m and P = P])
       (use lo' hi' P in \<open>simp_all add: t_def\<close>)
  then have acc: "\<bar>100 * int (nat t) - n\<bar> \<le> 50" using t0 by simp
  have "formatRatings n = ''('' @ one_decimal (nat t) @ ''K)''"
    using assms by (simp add: formatRatings_def dd tf Let_def)
  with acc show ?thesis by blast
qed

lemma formatRatings_millions:
  assumes "1000000 \<le> n" and "n < 2 ^ 53"
  shows "\<exists>t. formatRatings n = ''('' @ one_decimal t @ ''M)'' \<and> \<bar>100000 * int t - n\<bar> \<le> 50000"
proof -
  have l: "ilog2 1000000 = 19" by (simp add: ilog2.simps)
  have "nat n < 2 ^ 53" using assms by simp
  then have "ilog2 (nat n) < 53" using assms by (intro ilog2_less) simp_all
  then have k: "int (ilog2 (nat n)) - int (ilog2 (nat 1000000)) \<le> 52 - int 19"
    by (simp add: l)
  from double_div_fraction [OF _ _ k] assms obtain s m
    where s: "19 \<le> s" and dd: "double_div n 1000000 = (m, - int s)" and m0: "0 \<le> m"
      and lo: "2 * (n * 2 ^ s) - 1000000 \<le> 2 * (1000000 * m)"
      and hi: "2 * (1000000 * m) \<le> 2 * (n * 2 ^ s) + 1000000"
    by auto
  define P :: int where "P = 2 ^ s"
  have "(2::int) ^ 19 \<le> 2 ^ s" using s by (intro power_increasing) simp_all
  then have P: "524288 \<le> P" by (simp add: P_def)
  have nP: "n * P \<le> 9007199254740992 * P" using assms P by (intro mult_right_mono) simp_all
  from lo hi have lo': "2 * (n * P) - 1000000 \<le> 2 * (1000000 * m)"
    and hi': "2 * (1000000 * m) \<le> 2 * (n * P) + 1000000"
    by (simp_all add: P_def)
  have "m < 1000000000000000000000 * P" using hi' nP P by linarith
  then have small: "m < 10 ^ 21 * 2 ^ s" by (simp add: P_def)
  define t where "t = (20 * m + P) div (2 * P)"
  have t0: "0 \<le> t" using m0 P by (simp add: t_def pos_imp_zdiv_nonneg_iff)
  have tf: "toFixed1 (m, - int s) = one_decimal (nat t)"
    using toFixed1_fraction [OF _ small m0] s by (simp add: t_def P_def)
  have "\<bar>100000 * t - n\<bar> \<le> 100000 div 2"
    by (rule rounded_tenths [where b = 1000000 and m = m and P = P])
       (use lo' hi' P in \<open>simp_all add: t_def\<close>)
  then have acc: "\<bar>100000 * int (nat t) - n\<bar> \<le> 50000" using t0 by simp
  have "formatRatings n = ''('' @ one_decimal (nat t) @ ''M)''"
    using assms by (simp add: formatRatings_def dd tf Let_def)
  with acc show ?thesis by blast
qed

lemma quotient_exponent_lower:
  assumes a: "1 \<le> a" and b: "1 \<le> b" and E: "0 \<le> quotient_exponent a b"
  shows "b * 2 ^ nat (quotient_exponent a b) \<le> a"
proof -
  define la where "la = ilog2 (nat a)"
  define lb where "lb = ilog2 (nat b)"
  define k where "k = int la - int lb"
  have q: "quotient_exponent a b
      = (if (if 0 \<le> k then b * 2 ^ nat k \<le> a else b \<le> a * 2 ^ nat (- k)) then k else k - 1)"
    unfolding k_def la_def lb_def quotient_exponent_def Let_def by (rule refl)
  have "quotient_exponent a b = k \<and> (0 \<le> k \<longrightarrow> b * 2 ^ nat k \<le> a)
      \<or> quotient_exponent a b = k - 1"
    unfolding q by auto
  then show ?thesis
  proof
    assume "quotient_exponent a b = k \<and> (0 \<le> k \<longrightarrow> b * 2 ^ nat k \<le> a)"
    with E show ?thesis by simp
  next
    assume e: "quotient_exponent a b = k - 1"
    with E have k1: "1 \<le> k" by simp
    then have la: "la = lb + nat k" by (simp add: k_def)
    have "2 ^ la \<le> nat a" using ilog2_bounds [of "nat a"] a by (simp add: la_def)
    then have "int (2 ^ la) \<le> int (nat a)" by (simp only: of_nat_le_iff)
    then have A: "2 ^ la \<le> a" using a by simp
    have "nat b < 2 ^ Suc lb" using ilog2_bounds [of "nat b"] b by (simp add: lb_def)
    then have "int (nat b) < int (2 ^ Suc lb)" by (simp only: of_nat_less_iff)
    then have B: "b < 2 ^ Suc lb" using b by simp
    have "b * 2 ^ nat (k - 1) \<le> 2 ^ Suc lb * 2 ^ nat (k - 1)"
      using B by (intro mult_right_mono) simp_all
    also have "\<dots> = (2::int) ^ (Suc lb + nat (k - 1))" by (simp only: power_add)
    also have "Suc lb + nat (k - 1) = la" using k1 la by simp
    finally show ?thesis using A e by simp
  qed
qed

lemma double_div_below_1e21:
  assumes "1000000 \<le> n" and "n < 999999999999999934464000000"
  shows "\<exists>m e. double_div n 1000000 = (m, e) \<and> 0 \<le> m \<and> \<not> at_least_1e21 (m, e)"
proof -
  define E where "E = quotient_exponent n 1000000"
  show ?thesis
  proof (cases "0 \<le> 52 - E")
    case True
    define s where "s = nat (52 - E)"
    define P :: int where "P = 2 ^ s"
    define m where "m = round_half_even (n * P) 1000000"
    have dd: "double_div n 1000000 = (m, - int s)"
      unfolding double_div_def Let_def E_def [symmetric] m_def P_def
      using True by (simp add: s_def)
    have m0: "0 \<le> m"
      unfolding m_def using assms by (intro round_half_even_nonneg) (simp_all add: P_def)
    have P: "1 \<le> P" by (simp add: P_def)
    from round_half_even_bounds [of 1000000 "n * P"]
    have hi: "2 * (1000000 * m) \<le> 2 * (n * P) + 1000000" by (simp add: m_def)
    have nP: "n * P \<le> 999999999999999934463999999 * P"
      using assms P by (intro mult_right_mono) simp_all
    have "m < 1000000000000000000000 * P" using hi nP P by linarith
    then have "\<not> at_least_1e21 (m, - int s)"
      by (auto simp: at_least_1e21_def P_def)
    with dd m0 show ?thesis by blast
  next
    case False
    define t where "t = nat (E - 52)"
    define T :: int where "T = 2 ^ t"
    define m where "m = round_half_even n (1000000 * T)"
    have t: "1 \<le> t" "- (52 - E) = int t" using False by (simp_all add: t_def)
    have dd: "double_div n 1000000 = (m, int t)"
      unfolding double_div_def Let_def E_def [symmetric] m_def T_def
      using False t(2) by (simp add: t_def)
    have E0: "0 \<le> E" using False by simp
    have "1000000 * 2 ^ nat E \<le> n"
      unfolding E_def using assms E0 by (intro quotient_exponent_lower) (simp_all add: E_def)
    then have "(2::int) ^ nat E < 2 ^ 70" using assms by simp
    then have "nat E < 70" by (rule power_less_imp_less_exp [rotated]) simp
    then have "t \<le> 17" by (simp add: t_def)
    then have "(2::int) ^ t \<le> 2 ^ 17" by (intro power_increasing) simp_all
    then have T: "T \<le> 131072" "1 \<le> T" by (simp_all add: T_def)
    have m0: "0 \<le> m"
      unfolding m_def using assms T by (intro round_half_even_nonneg) simp_all
    from round_half_even_bounds [of "1000000 * T" n] T
    have "2 * (1000000 * T * m) \<le> 2 * n + 1000000 * T" by (simp add: m_def)
    then have "2000000 * (m * T) \<le> 2 * n + 1000000 * T" by (simp add: algebra_simps)
    then have "m * T < 1000000000000000000000" using assms T by linarith
    then have "\<not> at_least_1e21 (m, int t)"
      by (simp add: at_least_1e21_def T_def)
    with dd m0 show ?thesis by blast
  qed
qed

lemma formatRatings_millions_form:
  assumes "1000000 \<le> n" and "n < 999999999999999934464000000"
  shows "\<exists>t. formatRatings n = ''('' @ one_decimal t @ ''M)''"
proof -
  from double_div_below_1e21 [OF assms] obtain m e
    where "double_div n 1000000 = (m, e)" "0 \<le> m" "\<not> at_least_1e21 (m, e)" by blast
  moreover from toFixed1_form [OF this(3,2)] obtain t
    where "toFixed1 (m, e) = one_decimal t" by blast
  ultimately have "formatRatings n = ''('' @ one_decimal t @ ''M)''"
    using assms by (simp add: formatRatings_def Let_def)
  then show ?thesis by blast
qed

subsection \<open>The text of a small number\<close>

lemma digits_times_ten: "1 \<le> y \<Longrightarrow> digits (10 * y) = digits y @ ''0''"
  by (subst digits.simps) (simp add: digit_char_def)

lemma digits_shift: "1 \<le> s \<Longrightarrow> digits (s * 10 ^ j) = digits s @ replicate j (CHR ''0'')"
proof (induction j)
  case 0
  then show ?case by simp
next
  case (Suc j)
  have "1 \<le> s * 10 ^ j" using Suc.prems by simp
  then have "digits (10 * (s * 10 ^ j)) = digits (s * 10 ^ j) @ ''0''"
    by (rule digits_times_ten)
  then show ?case
    using Suc by (simp add: mult.left_commute replicate_append_same)
qed

lemma length_digits: "1 \<le> j \<Longrightarrow> n < 10 ^ j \<Longrightarrow> length (digits n) \<le> j"
proof (induction j arbitrary: n)
  case 0
  then show ?case by simp
next
  case (Suc j)
  show ?case
  proof (cases "n < 10")
    case True
    then show ?thesis by (subst digits.simps) simp
  next
    case False
    then have j: "1 \<le> j" using Suc.prems by (cases j) simp_all
    have "n div 10 < 10 ^ j" using Suc.prems by (simp add: less_mult_imp_div_less mult.commute)
    from Suc.IH [OF j this] False show ?thesis by (subst digits.simps) simp
  qed
qed

lemma round_half_even_one: "round_half_even num 1 = num"
  by (simp add: round_half_even_def Let_def)

lemma double_of_int_small:
  assumes "0 \<le> y" and "y < 2 ^ 53"
  shows "double_of_int y = y"
proof (cases "y = 0")
  case True
  then show ?thesis
    by (simp add: double_of_int_def double_div_def quotient_exponent_def Let_def
        round_half_even_one ilog2.simps)
next
  case False
  with assms have y: "1 \<le> y" by simp
  define E where "E = quotient_exponent y 1"
  define s where "s = nat (52 - E)"
  have "nat y < 2 ^ 53" using assms by simp
  then have "ilog2 (nat y) < 53" using y by (intro ilog2_less) simp_all
  then have "E \<le> 52" using quotient_exponent_le [of y 1] by (simp add: E_def ilog2.simps)
  then have s0: "0 \<le> 52 - E" by simp
  have dd: "double_div y 1 = (y * 2 ^ s, - int s)"
    unfolding double_div_def Let_def E_def [symmetric] round_half_even_one
    using s0 by (simp add: s_def)
  show ?thesis
    by (simp add: double_of_int_def dd)
qed

lemma closer_cases: "closer x k c c' = c \<or> closer x k c c' = c'"
  by (auto simp: closer_def Let_def split: prod.splits)

lemma foldl_closer_mem: "foldl (closer x k) c cs \<in> set (c # cs)"
proof (induction cs arbitrary: c)
  case Nil
  then show ?case by simp
next
  case (Cons a cs)
  from Cons [of "closer x k c a"] closer_cases [of x k c a] show ?case by auto
qed

lemma shortest_result:
  "shortest x d k fuel = (n, k', s) \<Longrightarrow>
   (n, k', s) = (d, d, x)
   \<or> represents x k' (n, s) \<and> (n = d \<or> n = Suc d) \<and> k' < k + fuel"
proof (induction fuel arbitrary: k)
  case 0
  then show ?case by simp
next
  case (Suc fuel)
  show ?case
  proof (cases "filter (represents x k) (candidates x d k)")
    case Nil
    with Suc.prems have "shortest x d (k + 1) fuel = (n, k', s)" by simp
    from Suc.IH [OF this] show ?thesis by auto
  next
    case (Cons c cs)
    with Suc.prems have r: "foldl (closer x k) c cs = (n, s)" and k: "k' = k"
      by (auto split: prod.splits)
    from foldl_closer_mem [of x k c cs] r Cons
    have "(n, s) \<in> set (filter (represents x k) (candidates x d k))" by simp
    then have "represents x k (n, s)" and "(n, s) \<in> set (candidates x d k)" by simp_all
    then show ?thesis using k by (auto simp: candidates_def Let_def)
  qed
qed

lemma positive_toString_small:
  assumes "1 \<le> x" and "x < 1000"
  shows "positive_toString x = digits (nat x)"
proof -
  define d where "d = length (digits (nat x))"
  have d: "d \<le> 3" unfolding d_def using assms by (intro length_digits) simp_all
  obtain n k s where sh: "shortest x d (Suc 0) d = (n, k, s)"
    by (cases "shortest x d (Suc 0) d") auto
  from shortest_result [OF sh]
  have "digits (nat s) @ replicate (n - k) (CHR ''0'') = digits (nat x) \<and> n \<le> 21"
  proof
    assume "(n, k, s) = (d, d, x)"
    then show ?thesis using d by simp
  next
    assume a: "represents x k (n, s) \<and> (n = d \<or> n = Suc d) \<and> k < Suc 0 + d"
    then have s: "10 ^ (k - 1) \<le> s" "s < 10 ^ k"
      and r: "double_of_int (s * 10 ^ (n - k)) = x"
      by (simp_all add: represents_def)
    have kn: "k \<le> n" "n \<le> 4" using a d by auto
    have "(1::int) \<le> 10 ^ (k - 1)" by simp
    with s(1) have s1: "1 \<le> s" by linarith
    have "s * 10 ^ (n - k) < 10 ^ k * 10 ^ (n - k)"
      using s(2) by (intro mult_strict_right_mono) simp_all
    also have "\<dots> = (10::int) ^ n" using kn by (simp add: power_add [symmetric])
    also have "\<dots> \<le> 10 ^ 4" using kn by (intro power_increasing) simp_all
    finally have "s * 10 ^ (n - k) < 2 ^ 53" by simp
    moreover have "0 \<le> s * 10 ^ (n - k)" using s1 by simp
    ultimately have "double_of_int (s * 10 ^ (n - k)) = s * 10 ^ (n - k)"
      by (intro double_of_int_small)
    with r have x: "x = s * 10 ^ (n - k)" by simp
    have "nat x = nat s * 10 ^ (n - k)"
      using s1 by (simp add: x nat_mult_distrib nat_power_eq)
    moreover have "1 \<le> nat s" using s1 by simp
    ultimately show ?thesis using digits_shift [of "nat s" "n - k"] kn by simp
  qed
  then show ?thesis
    by (simp add: positive_toString_def Let_def d_def [symmetric] sh)
qed

lemma number_toString_small:
  assumes "0 \<le> x" and "x < 1000"
  shows "number_toString x = digits (nat x)"
proof (cases "x = 0")
  case True
  then show ?thesis by (simp add: number_toString_def digits.simps digit_char_def)
next
  case False
  with assms show ?thesis by (simp add: number_toString_def positive_toString_small)
qed

subsection \<open>Values of \<^verbatim>\<open>formatRatings\<close>\<close>

lemma formatRatings_examples:
  "formatRatings 500 = ''(500)''"
  "formatRatings 2500 = ''(2.5K)''"
  "formatRatings 3200000 = ''(3.2M)''"
  "formatRatings 999999 = ''(1000.0K)''"
  "formatRatings 1234 = ''(1.2K)''"
  by (simp_all add: formatRatings_def toFixed1_def at_least_1e21_def eval_number)

lemma nearest_double_1e27:
  "double_of_int 1000000000000000000000000000 = 1000000000000000013287555072"
  "double_of_int 1000000000000000013287555072 = 1000000000000000013287555072"
  "formatRatings 1000000000000000013287555072 = ''(1e+21M)''"
  by (simp_all add: formatRatings_def toFixed1_def at_least_1e21_def eval_number)

lemma one_decimal_has_point: "CHR ''.'' \<in> set (one_decimal t)"
  by (simp add: one_decimal_def)

subsection \<open>The cap\<close>

text \<open>
  Claim C3. For every query and every behaviour of the API, \<^verbatim>\<open>fetchProducts\<close> returns at
  most 500 records: it returns the first 500 items of the accumulator the loop ended with,
  cut once, after the loop.
\<close>

theorem fetchProducts_at_most_cap:
  "length (fetchProducts eng transport query) \<le> 500
   \<and> fetchProducts eng transport query
       = take 500 (allProducts (fetchProducts_run eng transport query))"
  by (simp add: fetchProducts_def TARGET_PRODUCTS_PER_QUERY_def)

subsection \<open>Failures\<close>

text \<open>
  Claim C4. \<^verbatim>\<open>fetchProducts\<close> never throws: it is a total function to lists, every exception
  of the \<^verbatim>\<open>try\<close> block being a branch of \<open>try_block\<close> that \<open>iteration\<close> catches. When the pages
  before page \<open>k\<close> completed and asked for more, page \<open>k\<close> is requested (fewer than 500 items
  are held) and its request fails (network error, status that is not a success, body that
  is not JSON), the loop stops there and the function returns exactly the items of the
  pages before \<open>k\<close>.
\<close>

theorem fetchProducts_absorbs_failure:
  assumes "1 \<le> k"
    and "\<forall>p\<in>{1..<k}. continues (transport query p)"
    and "length (pages_before (transport query) k) < 500"
    and "fails (transport query k)"
  shows "fetchProducts eng transport query = pages_before (transport query) k
    \<and> fetchProducts_run eng transport query
       = \<lparr>allProducts = pages_before (transport query) k, page = k, hasMore = False,
          requests = map (\<lambda>p. (p, length (pages_before (transport query) p))) [1..<Suc k]\<rparr>"
proof -
  let ?f = "transport query"
  let ?st = "\<lparr>allProducts = pages_before ?f k, page = k, hasMore = True,
      requests = map (\<lambda>p. (p, length (pages_before ?f p))) [1..<k]\<rparr>"
  have f: "fails (?f (page ?st))" using assms(4) by simp
  note it = iteration_fails [where fetch = ?f and st = ?st and eng = eng, OF f]
  have "\<not> hasMore (iteration eng ?f ?st)" unfolding it by simp
  then have "while_loop eng ?f (iteration eng ?f ?st) = iteration eng ?f ?st"
    by (intro while_loop_stop) simp
  with run_reaches_page [where k = k and transport = transport and query = query and eng = eng,
      OF assms(1-3)]
  have "fetchProducts_run eng transport query = iteration eng ?f ?st" by simp
  also have "\<dots> = \<lparr>allProducts = pages_before ?f k, page = k, hasMore = False,
      requests = map (\<lambda>p. (p, length (pages_before ?f p))) [1..<Suc k]\<rparr>"
    unfolding it using assms(1) by simp
  finally have run: "fetchProducts_run eng transport query
      = \<lparr>allProducts = pages_before ?f k, page = k, hasMore = False,
         requests = map (\<lambda>p. (p, length (pages_before ?f p))) [1..<Suc k]\<rparr>" .
  show ?thesis
    using assms(3) by (simp add: run fetchProducts_def TARGET_PRODUCTS_PER_QUERY_def)
qed

theorem fetchProducts_absorbs_failure_witness:
  "continues (failing_third_page ''tv'' 1)
   \<and> continues (failing_third_page ''tv'' 2)
   \<and> fails (failing_third_page ''tv'' 3)
   \<and> fetchProducts example_engine failing_third_page ''tv'' = [10, 11, 12]"
proof -
  have c1: "continues (failing_third_page ''tv'' 1)"
    and c2: "continues (failing_third_page ''tv'' 2)"
    by (simp_all add: continues_def ok_def failing_third_page_def)
  have f: "fails (failing_third_page ''tv'' 3)"
    by (simp add: fails_def failing_third_page_def)
  have c: "\<forall>p\<in>{1..<3}. continues (failing_third_page ''tv'' p)"
  proof
    fix p :: nat assume "p \<in> {1..<3}"
    then have "p = 1 \<or> p = 2" by auto
    then show "continues (failing_third_page ''tv'' p)" using c1 c2 by auto
  qed
  have items: "pages_before (failing_third_page ''tv'') 3 = [10, 11, 12]"
    by (simp add: pages_before_def page_items_def upt_rec failing_third_page_def)
  have l: "length (pages_before (failing_third_page ''tv'') 3) < 500"
    by (simp only: items) simp
  have one: "1 \<le> (3::nat)" by simp
  note t = fetchProducts_absorbs_failure [where k = 3 and transport = failing_third_page
      and query = "''tv''" and eng = example_engine, OF one c l f]
  have r: "fetchProducts example_engine failing_third_page ''tv'' = [10, 11, 12]"
    by (rule trans [OF conjunct1 [OF t] items])
  show ?thesis
    by (intro conjI) (rule c1, rule c2, rule f, rule r)
qed

text \<open>
  Claim C9, as amended. When the pages before page \<open>k\<close> completed and asked for more, page
  \<open>k\<close> is requested and its response has a non-empty \<^verbatim>\<open>results\<close> array, of no more items
  than a call takes, but no \<^verbatim>\<open>pagination\<close> to read, the items of page \<open>k\<close> are in the
  accumulator when the read throws: the loop stops with the items of the earlier pages
  followed by those of page \<open>k\<close>, and the function returns the first 500 of them.
\<close>

theorem fetchProducts_keeps_page_without_pagination:
  assumes "1 \<le> k"
    and "\<forall>p\<in>{1..<k}. continues (transport query p)"
    and "length (pages_before (transport query) k) < 500"
    and "no_pagination (transport query k)"
    and "spreads eng (page_items (transport query k))"
  shows "fetchProducts eng transport query
       = take 500 (pages_before (transport query) k @ page_items (transport query k))
    \<and> fetchProducts_run eng transport query
       = \<lparr>allProducts = pages_before (transport query) k @ page_items (transport query k),
          page = k, hasMore = False,
          requests = map (\<lambda>p. (p, length (pages_before (transport query) p))) [1..<Suc k]\<rparr>"
proof -
  let ?f = "transport query"
  let ?st = "\<lparr>allProducts = pages_before ?f k, page = k, hasMore = True,
      requests = map (\<lambda>p. (p, length (pages_before ?f p))) [1..<k]\<rparr>"
  have f: "no_pagination (?f (page ?st))" using assms(4) by simp
  have g: "spreads eng (page_items (?f (page ?st)))" using assms(5) by simp
  note it = iteration_no_pagination [where fetch = ?f and st = ?st and eng = eng, OF f g]
  have "\<not> hasMore (iteration eng ?f ?st)" unfolding it by simp
  then have "while_loop eng ?f (iteration eng ?f ?st) = iteration eng ?f ?st"
    by (intro while_loop_stop) simp
  with run_reaches_page [where k = k and transport = transport and query = query and eng = eng,
      OF assms(1-3)]
  have "fetchProducts_run eng transport query = iteration eng ?f ?st" by simp
  also have "\<dots> = \<lparr>allProducts = pages_before ?f k @ page_items (?f k), page = k, hasMore = False,
      requests = map (\<lambda>p. (p, length (pages_before ?f p))) [1..<Suc k]\<rparr>"
    unfolding it using assms(1) by simp
  finally have run: "fetchProducts_run eng transport query
      = \<lparr>allProducts = pages_before ?f k @ page_items (?f k), page = k, hasMore = False,
         requests = map (\<lambda>p. (p, length (pages_before ?f p))) [1..<Suc k]\<rparr>" .
  show ?thesis
    by (simp add: run fetchProducts_def TARGET_PRODUCTS_PER_QUERY_def)
qed

theorem fetchProducts_keeps_page_without_pagination_witness:
  "continues (unpaginated_second_page ''tv'' 1)
   \<and> no_pagination (unpaginated_second_page ''tv'' 2)
   \<and> spreads example_engine (page_items (unpaginated_second_page ''tv'' 2))
   \<and> fetchProducts example_engine unpaginated_second_page ''tv'' = [10, 11, 12, 13]"
proof -
  have c1: "continues (unpaginated_second_page ''tv'' 1)"
    by (simp add: continues_def ok_def unpaginated_second_page_def)
  have f: "no_pagination (unpaginated_second_page ''tv'' 2)"
    by (simp add: no_pagination_def ok_def unpaginated_second_page_def)
  have g: "spreads example_engine (page_items (unpaginated_second_page ''tv'' 2))"
    by (simp add: spreads_def page_items_def unpaginated_second_page_def
        TARGET_PRODUCTS_PER_QUERY_def example_engine_def)
  have c: "\<forall>p\<in>{1..<2}. continues (unpaginated_second_page ''tv'' p)"
  proof
    fix p :: nat assume "p \<in> {1..<2}"
    then have "p = 1" by auto
    then show "continues (unpaginated_second_page ''tv'' p)" using c1 by simp
  qed
  have items: "pages_before (unpaginated_second_page ''tv'') 2 = [10, 11]"
    by (simp add: pages_before_def page_items_def upt_rec unpaginated_second_page_def)
  have l: "length (pages_before (unpaginated_second_page ''tv'') 2) < 500"
    by (simp only: items) simp
  have one: "1 \<le> (2::nat)" by simp
  note t = fetchProducts_keeps_page_without_pagination
    [where k = 2 and transport = unpaginated_second_page and query = "''tv''"
      and eng = example_engine, OF one c l f g]
  have "take 500 (pages_before (unpaginated_second_page ''tv'') 2
      @ page_items (unpaginated_second_page ''tv'' 2)) = [10, 11, 12, 13]"
    by (simp only: items) (simp add: page_items_def unpaginated_second_page_def)
  then have r: "fetchProducts example_engine unpaginated_second_page ''tv'' = [10, 11, 12, 13]"
    by (rule trans [OF conjunct1 [OF t]])
  show ?thesis
    by (intro conjI) (rule c1, rule f, rule g, rule r)
qed

text \<open>
  The claim as it stands, that the items of such a page are in the returned sequence, fails
  in two ways. With an engine whose calls take 600000 arguments, the push of a page of
  700000 items throws before the read of \<^verbatim>\<open>pagination\<close> is reached: nothing is appended,
  and none of the items is returned. And the cap applies to what was appended: of a single
  page of 501 items without \<^verbatim>\<open>pagination\<close>, the last item is not returned.
\<close>

theorem page_without_pagination_counterexample:
  "no_pagination (oversized_page ''tv'' 1)
   \<and> page_items (oversized_page ''tv'' 1) = replicate 700000 1
   \<and> fetchProducts_run example_engine oversized_page ''tv''
     = \<lparr>allProducts = [], page = 1, hasMore = False, requests = [(1, 0)]\<rparr>
   \<and> fetchProducts example_engine oversized_page ''tv'' = []
   \<and> no_pagination (unpaginated_page ''tv'' 1)
   \<and> page_items (unpaginated_page ''tv'' 1) = [0..<501]
   \<and> fetchProducts example_engine unpaginated_page ''tv'' = [0..<500]
   \<and> 500 \<in> set (page_items (unpaginated_page ''tv'' 1))
   \<and> 500 \<notin> set (fetchProducts example_engine unpaginated_page ''tv'')"
proof -
  have r: "fetchProducts example_engine unpaginated_page ''tv'' = [0..<500]"
    by (simp add: fetchProducts_def unpaginated_page_run TARGET_PRODUCTS_PER_QUERY_def)
  have n: "no_pagination (unpaginated_page ''tv'' 1)"
    by (simp add: no_pagination_def unpaginated_page_def ok_def)
  have i: "page_items (unpaginated_page ''tv'' 1) = [0..<501]"
    by (simp add: page_items_def unpaginated_page_def)
  have n': "no_pagination (oversized_page ''tv'' 1)"
    by (simp add: no_pagination_def oversized_page_def ok_def)
  have i': "page_items (oversized_page ''tv'' 1) = replicate 700000 1"
    by (simp add: page_items_def oversized_page_def)
  have r': "fetchProducts example_engine oversized_page ''tv'' = []"
    by (simp add: fetchProducts_def oversized_page_run)
  have m: "500 \<in> set [0..<501]" "500 \<notin> set [0..<500]" by simp_all
  show ?thesis
    unfolding r i r' i' oversized_page_run
    using n n' m by simp
qed

subsection \<open>Stopping at the cap\<close>

text \<open>
  Claim C5, as amended. Every request is issued while fewer than 500 items are held. When
  every response brings items, no more of them than a call takes, and a \<^verbatim>\<open>nextPage\<close> that
  is not \<^verbatim>\<open>null\<close>, the loop fetches the pages 1 to \<open>k\<close> and stops, where \<open>k\<close> is the first
  page with which the count reaches 500: the pages before \<open>k\<close> hold fewer than 500 items,
  the pages up to \<open>k\<close> hold at least 500, and page \<open>k + 1\<close> is not requested.
\<close>

theorem pagination_stops_at_cap:
  "(\<forall>r\<in>set (requests (fetchProducts_run eng transport query)). snd r < 500)
   \<and> ((\<forall>p. continues (transport query p) \<and> spreads eng (page_items (transport query p))) \<longrightarrow>
       (\<exists>k\<ge>1. fetchProducts_run eng transport query
           = \<lparr>allProducts = pages_before (transport query) (Suc k), page = Suc k, hasMore = True,
              requests = map (\<lambda>p. (p, length (pages_before (transport query) p))) [1..<Suc k]\<rparr>
         \<and> length (pages_before (transport query) k) < 500
         \<and> 500 \<le> length (pages_before (transport query) (Suc k))))"
proof
  have "\<forall>r\<in>set (requests (initial :: 'a loop_state)). snd r < TARGET_PRODUCTS_PER_QUERY"
    by (simp add: initial_def)
  from while_loop_requests_below_cap [OF this]
  show "\<forall>r\<in>set (requests (fetchProducts_run eng transport query)). snd r < 500"
    by (simp add: fetchProducts_run_def TARGET_PRODUCTS_PER_QUERY_def)
next
  show "(\<forall>p. continues (transport query p) \<and> spreads eng (page_items (transport query p))) \<longrightarrow>
       (\<exists>k\<ge>1. fetchProducts_run eng transport query
           = \<lparr>allProducts = pages_before (transport query) (Suc k), page = Suc k, hasMore = True,
              requests = map (\<lambda>p. (p, length (pages_before (transport query) p))) [1..<Suc k]\<rparr>
         \<and> length (pages_before (transport query) k) < 500
         \<and> 500 \<le> length (pages_before (transport query) (Suc k)))"
    using run_all_continue [where fetch = "transport query" and eng = eng]
    by (simp add: fetchProducts_run_def TARGET_PRODUCTS_PER_QUERY_def)
qed

theorem pagination_stops_at_cap_witness:
  "(\<forall>p. continues (endless_pages ''tv'' p)
       \<and> spreads example_engine (page_items (endless_pages ''tv'' p)))
   \<and> requests (fetchProducts_run example_engine endless_pages ''tv'')
     = [(1, 0), (2, 200), (3, 400)]
   \<and> (\<exists>k\<ge>1. fetchProducts_run example_engine endless_pages ''tv''
           = \<lparr>allProducts = pages_before (endless_pages ''tv'') (Suc k),
              page = Suc k, hasMore = True,
              requests = map (\<lambda>p. (p, length (pages_before (endless_pages ''tv'') p))) [1..<Suc k]\<rparr>
         \<and> length (pages_before (endless_pages ''tv'') k) < 500
         \<and> 500 \<le> length (pages_before (endless_pages ''tv'') (Suc k)))"
proof -
  have c: "\<forall>p. continues (endless_pages ''tv'' p)
       \<and> spreads example_engine (page_items (endless_pages ''tv'' p))"
    by (simp add: continues_def ok_def endless_pages_def spreads_def page_items_def
        TARGET_PRODUCTS_PER_QUERY_def example_engine_def)
  with pagination_stops_at_cap [of example_engine endless_pages "''tv''"]
  have e: "\<exists>k\<ge>1. fetchProducts_run example_engine endless_pages ''tv''
           = \<lparr>allProducts = pages_before (endless_pages ''tv'') (Suc k),
              page = Suc k, hasMore = True,
              requests = map (\<lambda>p. (p, length (pages_before (endless_pages ''tv'') p))) [1..<Suc k]\<rparr>
         \<and> length (pages_before (endless_pages ''tv'') k) < 500
         \<and> 500 \<le> length (pages_before (endless_pages ''tv'') (Suc k))"
    by blast
  have r: "requests (fetchProducts_run example_engine endless_pages ''tv'')
      = [(1, 0), (2, 200), (3, 400)]"
    by (simp only: endless_pages_run loop_state.simps)
  show ?thesis
    by (intro conjI) (rule c, rule r, rule e)
qed

text \<open>
  The claim as it stands fails for pages that bring more items than a call takes. With an
  engine whose calls take 600000 arguments and an API whose every page brings 700000 items
  and a \<^verbatim>\<open>nextPage\<close>, the push of the first page throws: the loop stops after one request
  with no item held, far from the cap, and the function returns nothing.
\<close>

theorem oversized_pages_counterexample:
  "(\<forall>p. continues (oversized_pages ''tv'' p))
   \<and> fetchProducts_run example_engine oversized_pages ''tv''
     = \<lparr>allProducts = [], page = 1, hasMore = False, requests = [(1, 0)]\<rparr>
   \<and> fetchProducts example_engine oversized_pages ''tv'' = []"
proof -
  have c: "\<forall>p. continues (oversized_pages ''tv'' p)"
    by (simp add: continues_def ok_def oversized_pages_def)
  have r: "fetchProducts example_engine oversized_pages ''tv'' = []"
    by (simp add: fetchProducts_def oversized_pages_run)
  show ?thesis
    by (intro conjI) (rule c, rule oversized_pages_run, rule r)
qed

subsection \<open>The command line\<close>

text \<open>
  Claim C8. With no query argument the program prints the usage line and the example and
  exits with status 1. These are its only events: no page is fetched, \<^verbatim>\<open>data.csv\<close> is neither
  looked for, read nor written, and the file system is as before.
\<close>

theorem no_queries_usage_and_exit:
  "program eng transport fs []
   = ([Log ''Usage: bun index.ts <query1> <query2> ...'',
       Log ''Example: bun index.ts samsung iphone oneplus'',
       ProcessExit 1], fs, 1)"
  by (simp add: program_def main_def)

subsection \<open>A failed write\<close>

text \<open>
  Claim C2, as amended. When there is at least one query and the write of \<^verbatim>\<open>data.csv\<close> fails,
  \<^verbatim>\<open>main\<close> does not handle the error: its promise is rejected with it. The rejection is
  handled by the \<^verbatim>\<open>catch(console.error)\<close> of the top-level call, which prints the error; the
  process then ends with status 0.
\<close>

theorem write_failure_caught_at_top_level:
  assumes "queries \<noteq> []" and "write_fails fs"
  shows "\<exists>evs. main eng transport fs queries = (evs, fs, Rejects WriteError)
      \<and> program eng transport fs queries = (evs @ [LogError WriteError], fs, 0)"
proof -
  from main_rejects [OF assms] obtain evs
    where "main eng transport fs queries = (evs, fs, Rejects WriteError)" by blast
  then show ?thesis by (simp add: program_def)
qed

theorem write_failure_caught_at_top_level_witness:
  "write_fails no_file_unwritable
   \<and> (\<exists>evs. main example_engine unreachable_api no_file_unwritable [''tv'']
          = (evs, no_file_unwritable, Rejects WriteError)
        \<and> program example_engine unreachable_api no_file_unwritable [''tv'']
          = (evs @ [LogError WriteError], no_file_unwritable, 0))"
proof -
  have w: "write_fails no_file_unwritable" by (simp add: no_file_unwritable_def)
  have q: "[''tv''] \<noteq> []" by simp
  from write_failure_caught_at_top_level
    [where eng = example_engine and transport = unreachable_api, OF q w] w
  show ?thesis by blast
qed

text \<open>
  The claim as it stands, that the error is handled nowhere and the process ends with a
  status other than 0, fails: on a disk that cannot be written, the run ends by printing
  the error, with status 0.
\<close>

theorem write_failure_counterexample:
  "write_fails no_file_unwritable
   \<and> program example_engine unreachable_api no_file_unwritable [''tv'']
     = ([Fetch ''tv'' 1, Log ([newline] @ ''Writing 0 products to data.csv...''), FileExists,
         FileWrite [], LogError WriteError],
        no_file_unwritable, 0)"
  by (simp add: program_def main_def fetches_def collect_def fetchProducts_def unreachable_run
      read_existing_def no_file_unwritable_def eval_number)

subsection \<open>The output file\<close>

text \<open>
  Claim C7, as amended. After a run with at least one query whose write succeeds,
  \<^verbatim>\<open>data.csv\<close> holds: the text of the old file, one newline and the new rows, when the
  file was there, could be read, and its text was not empty and did not end with a newline;
  the text of the old file and the new rows, when it could be read and its text was empty
  or ended with a newline; the new rows alone, when the file was not there or could not be
  read. The text of the old file is its content when that is well-formed UTF-8 and does
  not begin with a byte order mark, and its content without the mark when it begins with
  one.
\<close>

theorem data_csv_after_run:
  assumes "queries \<noteq> []" and "\<not> write_fails fs"
  shows "let rows = join [newline] (map productToCsvRow (collect eng transport queries));
             new = data_csv (fst (snd (program eng transport fs queries)))
         in (\<forall>old. data_csv fs = Some old \<and> \<not> read_fails fs
                  \<and> file_text eng old \<noteq> [] \<and> last (file_text eng old) \<noteq> newline
                \<longrightarrow> new = Some (file_text eng old @ [newline] @ rows))
          \<and> (\<forall>old. data_csv fs = Some old \<and> \<not> read_fails fs
                  \<and> (file_text eng old = [] \<or> last (file_text eng old) = newline)
                \<longrightarrow> new = Some (file_text eng old @ rows))
          \<and> (data_csv fs = None \<or> read_fails fs \<longrightarrow> new = Some rows)
          \<and> (\<forall>old. utf8 old \<and> take 3 old \<noteq> byte_order_mark \<longrightarrow> file_text eng old = old)
          \<and> (\<forall>old. utf8 old \<longrightarrow> file_text eng (byte_order_mark @ old) = old)"
proof -
  have a: "\<forall>old. utf8 old \<and> take 3 old \<noteq> byte_order_mark \<longrightarrow> file_text eng old = old"
    by (simp add: file_text_def)
  have b: "\<forall>old. utf8 old \<longrightarrow> file_text eng (byte_order_mark @ old) = old"
    by (simp add: file_text_def utf8_after_mark) (simp add: byte_order_mark_def)
  show ?thesis
    unfolding Let_def program_files main_written [OF assms]
    using a b by (auto simp: read_existing_def Let_def split: option.splits)
qed

theorem data_csv_after_run_witness:
  "data_csv file_without_newline = Some ''old row'' \<and> \<not> read_fails file_without_newline
   \<and> \<not> write_fails file_without_newline
   \<and> utf8 ''old row'' \<and> take 3 ''old row'' \<noteq> byte_order_mark
   \<and> data_csv (fst (snd (program example_engine one_item_page file_without_newline [''tv''])))
     = Some (''old row'' @ [newline] @ productToCsvRow example_item)"
proof -
  have q: "[''tv''] \<noteq> []" by simp
  have w: "\<not> write_fails file_without_newline" by (simp add: file_without_newline_def)
  have d: "data_csv file_without_newline = Some ''old row''"
    and r: "\<not> read_fails file_without_newline"
    by (simp_all add: file_without_newline_def)
  have u: "utf8 ''old row''" by (simp add: utf8_def)
  have m: "take 3 ''old row'' \<noteq> byte_order_mark" by (simp add: byte_order_mark_def)
  note t = data_csv_after_run [where queries = "[''tv'']" and fs = file_without_newline
      and eng = example_engine and transport = one_item_page, OF q w, unfolded Let_def]
  from t u m have e: "file_text example_engine ''old row'' = ''old row''" by blast
  have l: "file_text example_engine ''old row'' \<noteq> []
      \<and> last (file_text example_engine ''old row'') \<noteq> newline"
    unfolding e by (simp add: newline_def)
  from t d r l
  have "data_csv (fst (snd (program example_engine one_item_page file_without_newline [''tv''])))
     = Some (file_text example_engine ''old row'' @ [newline]
         @ join [newline] (map productToCsvRow (collect example_engine one_item_page [''tv''])))"
    by blast
  then have n: "data_csv (fst (snd (program example_engine one_item_page file_without_newline [''tv''])))
     = Some (''old row'' @ [newline] @ productToCsvRow example_item)"
    unfolding e by (simp add: collect_one_item)
  show ?thesis
    by (intro conjI) (rule d, rule r, rule w, rule u, rule m, rule n)
qed

text \<open>
  The claim as it stands, that the content of an existing file is always kept as a prefix,
  fails for a file that begins with a byte order mark: \<^verbatim>\<open>file.text()\<close> gives the text
  without the mark, and the write puts that text, not the old bytes, before the new rows.
  It also fails for a file that exists and cannot be read: the \<^verbatim>\<open>catch\<close> of line 161
  starts from the empty string, and the write replaces the old content with the new rows.
\<close>

theorem existing_file_counterexample:
  "data_csv file_with_mark = Some (byte_order_mark @ ''old row'' @ [newline])
   \<and> \<not> read_fails file_with_mark \<and> \<not> write_fails file_with_mark
   \<and> data_csv (fst (snd (program example_engine one_item_page file_with_mark [''tv''])))
     = Some (''old row'' @ [newline] @ productToCsvRow example_item)
   \<and> data_csv unreadable_file = Some ''old row''
   \<and> \<not> write_fails unreadable_file
   \<and> data_csv (fst (snd (program example_engine one_item_page unreadable_file [''tv''])))
     = Some (productToCsvRow example_item)"
proof -
  have q: "[''tv''] \<noteq> []" by simp
  have w: "\<not> write_fails unreadable_file" by (simp add: unreadable_file_def)
  have w': "\<not> write_fails file_with_mark" by (simp add: file_with_mark_def)
  have d': "data_csv file_with_mark = Some (byte_order_mark @ ''old row'' @ [newline])"
    and r': "\<not> read_fails file_with_mark"
    by (simp_all add: file_with_mark_def)
  have u: "utf8 (''old row'' @ [newline])" by (simp add: utf8_def newline_def)
  have t: "file_text example_engine (byte_order_mark @ ''old row'' @ [newline])
      = ''old row'' @ [newline]"
    using u by (simp add: file_text_def utf8_after_mark) (simp add: byte_order_mark_def)
  have a: "data_csv (fst (snd (program example_engine one_item_page file_with_mark [''tv''])))
     = Some (''old row'' @ [newline] @ productToCsvRow example_item)"
    unfolding program_files main_written [OF q w'] read_existing_def d' option.case Let_def t
    by (simp add: r' collect_one_item)
  have b: "data_csv (fst (snd (program example_engine one_item_page unreadable_file [''tv''])))
     = Some (productToCsvRow example_item)"
    unfolding program_files main_written [OF q w]
    by (simp add: unreadable_file_def read_existing_def collect_one_item)
  have d: "data_csv unreadable_file = Some ''old row''" by (simp add: unreadable_file_def)
  show ?thesis
    by (intro conjI) (rule d', rule r', rule w', rule a, rule d, rule w, rule b)
qed

subsection \<open>The fields of a row\<close>

text \<open>
  Claim C1. The title is escaped as the claim says (the title of the example item becomes
  the quoted field of the specification's example), but only the title is passed to
  \<^verbatim>\<open>escapeCsvField\<close>: the price, formatted with the digit grouping of \<^verbatim>\<open>en-IN\<close>, is written
  as it is. The row of the example item, whose price is 1299, has eight comma-separated
  fields, not seven: the price is cut in two.
\<close>

theorem row_with_grouped_price:
  "escapeCsvField (title example_item)
     = [quote_char] @ ''He said '' @ [quote_char, quote_char] @ ''hi''
       @ [quote_char, quote_char] @ '', ok'' @ [quote_char]
   \<and> formatPrice (price example_item) = currency_prefix @ ''1,299''
   \<and> csv_fields (productToCsvRow example_item)
     = [[quote_char] @ ''He said '' @ [quote_char, quote_char] @ ''hi''
          @ [quote_char, quote_char] @ '', ok'' @ [quote_char],
        currency_prefix @ ''1'', ''299'', ''4'', ''(2.5K)'', ''https://example.com/p/1'',
        ''https://example.com/i/1s.jpg'', ''Amazon'']
   \<and> length (csv_fields (productToCsvRow example_item)) = 8"
proof -
  have f: "csv_fields (productToCsvRow example_item)
     = [[quote_char] @ ''He said '' @ [quote_char, quote_char] @ ''hi''
          @ [quote_char, quote_char] @ '', ok'' @ [quote_char],
        currency_prefix @ ''1'', ''299'', ''4'', ''(2.5K)'', ''https://example.com/p/1'',
        ''https://example.com/i/1s.jpg'', ''Amazon'']"
    by (simp add: example_row csv_fields_def quote_char_def currency_prefix_def)
  have e: "escapeCsvField (title example_item)
     = [quote_char] @ ''He said '' @ [quote_char, quote_char] @ ''hi''
       @ [quote_char, quote_char] @ '', ok'' @ [quote_char]"
    by (simp add: example_item_def escapeCsvField_def quote_char_def newline_def)
  have p: "formatPrice (price example_item) = currency_prefix @ ''1,299''"
    by (simp add: example_item_def eval_row)
  show ?thesis unfolding f using e p by simp
qed

subsection \<open>The ratings count\<close>

text \<open>
  Claim C6, as amended. \<^verbatim>\<open>formatRatings\<close> maps the count -1 to the text
  \<^verbatim>\<open>Number 1 Top-Rated\<close>; every other count below 1000 to its text between parentheses,
  which for a count from 0 to 999 is its decimal numeral; a count from 1000 to 999999 to
  \<^verbatim>\<open>(X.XK)\<close>, where the number of tenths shown is within half a tenth of the count divided
  by 1000; and a count from 1000000 up to, and not including,
  \<open>10 ^ 27 - 65536000000\<close> to \<^verbatim>\<open>(X.XM)\<close>, where for a count below \<open>2 ^ 53\<close> the number
  of tenths shown is within half a tenth of the count divided by 1000000. So 500 gives
  \<^verbatim>\<open>(500)\<close>, 2500 gives \<^verbatim>\<open>(2.5K)\<close> and 3200000 gives \<^verbatim>\<open>(3.2M)\<close>.
\<close>

theorem formatRatings_forms:
  "formatRatings (- 1) = ''Number 1 Top-Rated''
   \<and> (\<forall>n. n < 1000 \<and> n \<noteq> - 1 \<longrightarrow> formatRatings n = ''('' @ number_toString n @ '')'')
   \<and> (\<forall>n. 0 \<le> n \<and> n < 1000 \<longrightarrow> formatRatings n = ''('' @ digits (nat n) @ '')'')
   \<and> (\<forall>n. 1000 \<le> n \<and> n < 1000000 \<longrightarrow>
         (\<exists>t. formatRatings n = ''('' @ one_decimal t @ ''K)'' \<and> \<bar>100 * int t - n\<bar> \<le> 50))
   \<and> (\<forall>n. 1000000 \<le> n \<and> n < 999999999999999934464000000 \<longrightarrow>
         (\<exists>t. formatRatings n = ''('' @ one_decimal t @ ''M)''))
   \<and> (\<forall>n. 1000000 \<le> n \<and> n < 2 ^ 53 \<longrightarrow>
         (\<exists>t. formatRatings n = ''('' @ one_decimal t @ ''M)'' \<and> \<bar>100000 * int t - n\<bar> \<le> 50000))
   \<and> formatRatings 500 = ''(500)''
   \<and> formatRatings 2500 = ''(2.5K)''
   \<and> formatRatings 3200000 = ''(3.2M)''"
proof (intro conjI allI impI)
  show "formatRatings (- 1) = ''Number 1 Top-Rated''"
    by (simp add: formatRatings_def)
next
  fix n :: int assume "n < 1000 \<and> n \<noteq> - 1"
  then show "formatRatings n = ''('' @ number_toString n @ '')''"
    by (simp add: formatRatings_def)
next
  fix n :: int assume "0 \<le> n \<and> n < 1000"
  then show "formatRatings n = ''('' @ digits (nat n) @ '')''"
    by (simp add: formatRatings_def number_toString_small)
next
  fix n :: int assume "1000 \<le> n \<and> n < 1000000"
  then show "\<exists>t. formatRatings n = ''('' @ one_decimal t @ ''K)'' \<and> \<bar>100 * int t - n\<bar> \<le> 50"
    by (intro formatRatings_thousands) simp_all
next
  fix n :: int assume "1000000 \<le> n \<and> n < 999999999999999934464000000"
  then show "\<exists>t. formatRatings n = ''('' @ one_decimal t @ ''M)''"
    by (intro formatRatings_millions_form) simp_all
next
  fix n :: int assume "1000000 \<le> n \<and> n < 2 ^ 53"
  then show "\<exists>t. formatRatings n = ''('' @ one_decimal t @ ''M)'' \<and> \<bar>100000 * int t - n\<bar> \<le> 50000"
    by (intro formatRatings_millions) simp_all
qed (rule formatRatings_examples)+

theorem formatRatings_forms_witness:
  "formatRatings 0 = ''(0)''
   \<and> formatRatings 999 = ''(999)''
   \<and> (\<exists>t. formatRatings 1234 = ''('' @ one_decimal t @ ''K)'' \<and> \<bar>100 * int t - 1234\<bar> \<le> 50)
   \<and> (\<exists>t. formatRatings 3200000 = ''('' @ one_decimal t @ ''M)'' \<and> \<bar>100000 * int t - 3200000\<bar> \<le> 50000)
   \<and> (\<exists>t. formatRatings (10 ^ 26) = ''('' @ one_decimal t @ ''M)'')"
proof -
  note f = formatRatings_forms
  note small = f [THEN conjunct2, THEN conjunct2, THEN conjunct1, rule_format]
  note thousands = f [THEN conjunct2, THEN conjunct2, THEN conjunct2, THEN conjunct1, rule_format]
  note millions_form = f [THEN conjunct2, THEN conjunct2, THEN conjunct2, THEN conjunct2,
      THEN conjunct1, rule_format]
  note millions = f [THEN conjunct2, THEN conjunct2, THEN conjunct2, THEN conjunct2,
      THEN conjunct2, THEN conjunct1, rule_format]
  have a: "formatRatings 0 = ''('' @ digits (nat 0) @ '')''"
    by (rule small) simp
  have b: "formatRatings 999 = ''('' @ digits (nat 999) @ '')''"
    by (rule small) simp
  have c: "\<exists>t. formatRatings 1234 = ''('' @ one_decimal t @ ''K)'' \<and> \<bar>100 * int t - 1234\<bar> \<le> 50"
    by (rule thousands) simp
  have d: "\<exists>t. formatRatings 3200000 = ''('' @ one_decimal t @ ''M)'' \<and> \<bar>100000 * int t - 3200000\<bar> \<le> 50000"
    by (rule millions) simp
  have e: "\<exists>t. formatRatings (10 ^ 26) = ''('' @ one_decimal t @ ''M)''"
    by (rule millions_form) simp
  from a b have "formatRatings 0 = ''(0)''" "formatRatings 999 = ''(999)''"
    by (simp_all add: digits.simps digit_char_def)
  with c d e show ?thesis by blast
qed

text \<open>
  The claim as it stands, that every count of a million or more gives \<^verbatim>\<open>(X.XM)\<close>, fails
  from the number nearest to \<open>10 ^ 27\<close> on: its quotient by a million is \<open>10 ^ 21\<close>, for
  which \<^verbatim>\<open>toFixed\<close> gives the text of the number itself, in exponent notation.
\<close>

theorem formatRatings_exponent_counterexample:
  "double_of_int 1000000000000000013287555072 = 1000000000000000013287555072
   \<and> (1000000::int) \<le> 1000000000000000013287555072
   \<and> formatRatings 1000000000000000013287555072 = ''(1e+21M)''
   \<and> (\<forall>t. formatRatings 1000000000000000013287555072 \<noteq> ''('' @ one_decimal t @ ''M)'')"
proof -
  have "\<forall>t. ''(1e+21M)'' \<noteq> ''('' @ one_decimal t @ ''M)''"
  proof
    fix t
    have "CHR ''.'' \<in> set (''('' @ one_decimal t @ ''M)'')"
      using one_decimal_has_point [of t] by simp
    moreover have "CHR ''.'' \<notin> set ''(1e+21M)''" by simp
    ultimately show "''(1e+21M)'' \<noteq> ''('' @ one_decimal t @ ''M)''" by metis
  qed
  then show ?thesis by (simp add: nearest_double_1e27)
qed

text \<open>
  Claim C10. There is a count from 1000 to 999999, namely 999999, for which
  \<^verbatim>\<open>formatRatings\<close> returns \<^verbatim>\<open>(1000.0K)\<close>: the branch is chosen by the count, and the
  number shown is the quotient 999.999 rounded to one decimal.
\<close>

theorem thousands_branch_shows_1000:
  "formatRatings 999999 = ''(1000.0K)''
   \<and> (\<exists>n. 1000 \<le> n \<and> n < 1000000 \<and> formatRatings n = ''(1000.0K)'')"
proof -
  have f: "formatRatings 999999 = ''(1000.0K)''" by (rule formatRatings_examples)
  then have "\<exists>n::int. 1000 \<le> n \<and> n < 1000000 \<and> formatRatings n = ''(1000.0K)''"
    by (intro exI [of _ 999999]) simp
  with f show ?thesis by blast
qed

end
